theory Spec2Isabelle
  imports Main "HOL-Library.Word"
begin

unbundle bit_operations_syntax

section \<open>ZP7: the PEXT/PDEP polyfill of \<^verbatim>\<open>zp7.c\<close>\<close>

text \<open>
  All values of the program are \<^verbatim>\<open>uint64_t\<close>: 64-bit words, on which \<open>+\<close>, \<open>-\<close> and
  \<open>*\<close> wrap around, \<open>push_bit\<close> is \<^verbatim>\<open><<\<close> and \<open>drop_bit\<close> is the logical \<^verbatim>\<open>>>\<close>.
  The loops \<^verbatim>\<open>for (int i = 0; i < N_BITS; i++)\<close> run over the index list \<open>[0..<N_BITS]\<close>,
  the descending loop of PDEP over its reverse.
\<close>

type_synonym u64 = "64 word"

definition N_BITS :: nat where
  "N_BITS = 6"

text \<open>
  The struct \<^verbatim>\<open>zp7_masks_64_t\<close>. Its field \<^verbatim>\<open>mask\<close> is named \<open>mask_field\<close> here,
  since \<open>mask\<close> is the library's name for the word \<open>2 ^ n - 1\<close>.
\<close>

record zp7_masks_64_t =
  mask_field :: u64
  ppp_bit :: "u64 list"

subsection \<open>Prefix XOR and population count\<close>

text \<open>\<^verbatim>\<open>x ^= x << (1 << i)\<close>, the body of the loop of \<^verbatim>\<open>prefix_sum\<close>.\<close>

definition prefix_sum_step :: "nat \<Rightarrow> u64 \<Rightarrow> u64" where
  "prefix_sum_step i x = x XOR push_bit (2 ^ i) x"

definition prefix_sum :: "u64 \<Rightarrow> u64" where
  "prefix_sum x = fold prefix_sum_step [0..<N_BITS] x"

text \<open>The SWAR fallback \<^verbatim>\<open>popcnt_64\<close>, statement by statement.\<close>

definition popcnt_64 :: "u64 \<Rightarrow> u64" where
  "popcnt_64 x0 =
     (let m_1 = 0x5555555555555555;
          m_2 = 0x3333333333333333;
          m_4 = 0x0f0f0f0f0f0f0f0f;
          x1 = x0 - (drop_bit 1 x0 AND m_1);
          x2 = (x1 AND m_2) + (drop_bit 2 x1 AND m_2);
          x3 = (x2 + drop_bit 4 x2) AND m_4
      in drop_bit 56 (x3 * 0x0101010101010101))"

subsection \<open>The parallel-prefix popcount \<^verbatim>\<open>zp7_ppp_64\<close>\<close>

text \<open>
  The loop state is the working mask and the array \<^verbatim>\<open>r.ppp_bit\<close>. The array is
  uninitialised in C and every one of its six entries is written by the loop; the model
  starts it at zero.
\<close>

definition ppp_step :: "nat \<Rightarrow> u64 \<times> u64 list \<Rightarrow> u64 \<times> u64 list" where
  "ppp_step i s =
     (let m = fst s;
          bit = push_bit 1 (prefix_sum m)
      in (m AND bit, (snd s)[i := bit]))"

definition zp7_ppp_64 :: "u64 \<Rightarrow> zp7_masks_64_t" where
  "zp7_ppp_64 m =
     \<lparr>mask_field = m,
      ppp_bit = snd (fold ppp_step [0..<N_BITS] (NOT m, replicate N_BITS 0))\<rparr>"

subsection \<open>The build with \<^verbatim>\<open>HAS_CLMUL\<close>\<close>

type_synonym m128i = "128 word"

text \<open>
  Modelled from the spec: the intrinsic \<^verbatim>\<open>_mm_clmulepi64_si128\<close> is a hardware instruction,
  absent from the repository. The carry-less multiply is the product of two polynomials
  over GF(2): for every set bit \<open>i\<close> of the first operand, the second operand shifted left
  by \<open>i\<close> is XORed into the 128-bit result.
\<close>

definition clmul_64 :: "u64 \<Rightarrow> u64 \<Rightarrow> m128i" where
  "clmul_64 a b =
     fold (\<lambda>i acc. if bit a i then acc XOR push_bit i (ucast b) else acc) [0..<64] 0"

text \<open>
  Modelled from the spec: \<^verbatim>\<open>_mm_clmulepi64_si128\<close> with selector 0 multiplies the low 64-bit
  halves of its two 128-bit operands.
\<close>

definition mm_clmulepi64_si128_0 :: "m128i \<Rightarrow> m128i \<Rightarrow> m128i" where
  "mm_clmulepi64_si128_0 a b = clmul_64 (ucast a) (ucast b)"

text \<open>
  Modelled from the spec: the intrinsic \<^verbatim>\<open>_mm_cvtsi64_si128\<close>, absent from the repository,
  moves a 64-bit integer to the low half of an XMM register and zeroes the high half.
\<close>

definition mm_cvtsi64_si128 :: "u64 \<Rightarrow> m128i" where
  "mm_cvtsi64_si128 x = ucast x"

text \<open>
  Modelled from the spec: the intrinsic \<^verbatim>\<open>_mm_cvtsi128_si64\<close>, absent from the repository,
  returns the low 64 bits of an XMM register.
\<close>

definition mm_cvtsi128_si64 :: "m128i \<Rightarrow> u64" where
  "mm_cvtsi128_si64 x = ucast x"

text \<open>
  The loop of \<^verbatim>\<open>zp7_ppp_64\<close> under \<^verbatim>\<open>#ifdef HAS_CLMUL\<close>. The working mask is an XMM
  register, and \<^verbatim>\<open>_mm_and_si128\<close> is the bitwise AND of two registers.
\<close>

definition ppp_step_clmul :: "nat \<Rightarrow> m128i \<times> u64 list \<Rightarrow> m128i \<times> u64 list" where
  "ppp_step_clmul i s =
     (let m = fst s;
          neg_2 = mm_cvtsi64_si128 (- 2);
          bit = mm_clmulepi64_si128_0 m neg_2
      in (m AND bit, (snd s)[i := mm_cvtsi128_si64 bit]))"

definition zp7_ppp_64_clmul :: "u64 \<Rightarrow> zp7_masks_64_t" where
  "zp7_ppp_64_clmul m =
     \<lparr>mask_field = m,
      ppp_bit = snd (fold ppp_step_clmul [0..<N_BITS] (mm_cvtsi64_si128 (NOT m), replicate N_BITS 0))\<rparr>"

subsection \<open>PEXT\<close>

text \<open>\<^verbatim>\<open>a = (a & ~bit) | ((a & bit) >> shift)\<close> with \<^verbatim>\<open>shift = 1 << i\<close>.\<close>

definition pext_step :: "zp7_masks_64_t \<Rightarrow> nat \<Rightarrow> u64 \<Rightarrow> u64" where
  "pext_step masks i a =
     (let shift = 2 ^ i;
          bit = ppp_bit masks ! i
      in (a AND NOT bit) OR drop_bit shift (a AND bit))"

definition zp7_pext_pre_64 :: "u64 \<Rightarrow> zp7_masks_64_t \<Rightarrow> u64" where
  "zp7_pext_pre_64 a masks = fold (pext_step masks) [0..<N_BITS] (a AND mask_field masks)"

definition zp7_pext_64 :: "u64 \<Rightarrow> u64 \<Rightarrow> u64" where
  "zp7_pext_64 a m = zp7_pext_pre_64 a (zp7_ppp_64 m)"

subsection \<open>PDEP\<close>

text \<open>
  The portable pre-mask of PDEP (the build without \<^verbatim>\<open>HAS_BZHI\<close>):
  \<^verbatim>\<open>pop_mask = (1ULL << popcnt) & ~(popcnt >> 6); a &= pop_mask - 1\<close>.
  A shift of a 64-bit value by a variable count takes the count modulo 64, as the
  comment in the source says of x86; this matters only at \<open>popcnt = 64\<close>.
\<close>

definition shl_64 :: "u64 \<Rightarrow> u64 \<Rightarrow> u64" where
  "shl_64 x n = push_bit (unat n mod 64) x"

definition pdep_premask :: "u64 \<Rightarrow> u64 \<Rightarrow> u64" where
  "pdep_premask a popcnt =
     (let pop_mask = shl_64 1 popcnt AND NOT (drop_bit 6 popcnt)
      in a AND (pop_mask - 1))"

text \<open>\<^verbatim>\<open>bit = masks->ppp_bit[i] >> shift\<close>, the moving group of iteration \<open>i\<close>.\<close>

definition pdep_bit :: "zp7_masks_64_t \<Rightarrow> nat \<Rightarrow> u64" where
  "pdep_bit masks i = drop_bit (2 ^ i) (ppp_bit masks ! i)"

text \<open>\<^verbatim>\<open>a = (a & ~bit) + ((a & bit) << shift)\<close>.\<close>

definition pdep_step :: "zp7_masks_64_t \<Rightarrow> nat \<Rightarrow> u64 \<Rightarrow> u64" where
  "pdep_step masks i a =
     (let shift = 2 ^ i;
          bit = pdep_bit masks i
      in (a AND NOT bit) + push_bit shift (a AND bit))"

text \<open>
  The descending loop runs over a list of indices; \<open>pdep_entering masks i a\<close> is the
  value of \<^verbatim>\<open>a\<close> on entry to iteration \<open>i\<close>: the pre-masked input after the
  iterations \<open>N_BITS - 1, \<dots>, i + 1\<close>.
\<close>

definition pdep_loop :: "zp7_masks_64_t \<Rightarrow> nat list \<Rightarrow> u64 \<Rightarrow> u64" where
  "pdep_loop masks is a = fold (pdep_step masks) is (pdep_premask a (popcnt_64 (mask_field masks)))"

definition pdep_entering :: "zp7_masks_64_t \<Rightarrow> nat \<Rightarrow> u64 \<Rightarrow> u64" where
  "pdep_entering masks i a = pdep_loop masks (rev [Suc i..<N_BITS]) a"

definition zp7_pdep_pre_64 :: "u64 \<Rightarrow> zp7_masks_64_t \<Rightarrow> u64" where
  "zp7_pdep_pre_64 a masks = pdep_loop masks (rev [0..<N_BITS]) a"

definition zp7_pdep_64 :: "u64 \<Rightarrow> u64 \<Rightarrow> u64" where
  "zp7_pdep_64 a m = zp7_pdep_pre_64 a (zp7_ppp_64 m)"

section \<open>Specification vocabulary\<close>

text \<open>\<open>cnt P n\<close> is the number of positions below \<open>n\<close> that satisfy \<open>P\<close>.\<close>

definition cnt :: "(nat \<Rightarrow> bool) \<Rightarrow> nat \<Rightarrow> nat" where
  "cnt P n = length (filter P [0..<n])"

text \<open>
  The number of unset (set) bits of a mask strictly below position \<open>b\<close>. For a set
  position of the mask the first is the distance its bit travels, the second its rank
  among the set positions.
\<close>

definition unset_below :: "u64 \<Rightarrow> nat \<Rightarrow> nat" where
  "unset_below m b = cnt (\<lambda>j. \<not> bit m j) b"

definition set_below :: "u64 \<Rightarrow> nat \<Rightarrow> nat" where
  "set_below m b = cnt (bit m) b"

text \<open>
  The reference PEXT: the bits of \<open>a\<close> at the set positions of the mask, in ascending
  order of position, become the bits \<open>0, 1, 2, \<dots>\<close> of the result.
\<close>

definition pext_ref :: "u64 \<Rightarrow> u64 \<Rightarrow> u64" where
  "pext_ref a m = horner_sum of_bool 2 (map (bit a) (filter (bit m) [0..<64]))"

text \<open>
  The reference PDEP: output bit \<open>j\<close> is set if the mask has bit \<open>j\<close> and the input
  has the bit whose index is the rank of \<open>j\<close> among the set positions of the mask.
\<close>

definition pdep_ref :: "u64 \<Rightarrow> u64 \<Rightarrow> u64" where
  "pdep_ref a m =
     horner_sum of_bool 2 (map (\<lambda>j. bit m j \<and> bit a (length (filter (bit m) [0..<j]))) [0..<64])"

text \<open>
  The same two operations bit by bit, the way the processor manuals describe the
  instructions: a scan over the positions \<open>0, \<dots>, 63\<close> of the mask with a counter \<open>k\<close> of
  the set mask bits seen so far. PEXT copies bit \<open>i\<close> of the input to bit \<open>k\<close> of the
  destination, PDEP copies bit \<open>k\<close> of the input to bit \<open>i\<close> of the destination.
\<close>

definition pext_scan_step :: "u64 \<Rightarrow> u64 \<Rightarrow> nat \<Rightarrow> nat \<times> u64 \<Rightarrow> nat \<times> u64" where
  "pext_scan_step a m i s =
     (let k = fst s; dest = snd s
      in if bit m i
         then (Suc k, if bit a i then set_bit k dest else unset_bit k dest)
         else (k, dest))"

definition pext_scan :: "u64 \<Rightarrow> u64 \<Rightarrow> u64" where
  "pext_scan a m = snd (fold (pext_scan_step a m) [0..<64] (0, 0))"

definition pdep_scan_step :: "u64 \<Rightarrow> u64 \<Rightarrow> nat \<Rightarrow> nat \<times> u64 \<Rightarrow> nat \<times> u64" where
  "pdep_scan_step a m i s =
     (let k = fst s; dest = snd s
      in if bit m i
         then (Suc k, if bit a k then set_bit i dest else unset_bit i dest)
         else (k, dest))"

definition pdep_scan :: "u64 \<Rightarrow> u64 \<Rightarrow> u64" where
  "pdep_scan a m = snd (fold (pdep_scan_step a m) [0..<64] (0, 0))"

section \<open>Auxiliary definitions of the proofs\<close>

text \<open>The parity of the bits of \<open>x\<close> in the window of \<open>w\<close> positions ending at \<open>b\<close>.\<close>

definition window :: "u64 \<Rightarrow> nat \<Rightarrow> nat \<Rightarrow> bool" where
  "window x w b \<longleftrightarrow> odd (cnt (bit x) (Suc b) - cnt (bit x) (Suc b - w))"

text \<open>The working mask on entry to iteration \<open>i\<close> of the loop of \<^verbatim>\<open>zp7_ppp_64\<close>.\<close>

fun ppp_carry :: "u64 \<Rightarrow> nat \<Rightarrow> u64" where
  "ppp_carry m 0 = NOT m"
| "ppp_carry m (Suc i) = ppp_carry m i AND push_bit 1 (prefix_sum (ppp_carry m i))"

text \<open>
  The value of a list of bit fields, lowest field first, where each field weighs \<open>B\<close> times
  the one before it. The SWAR population count keeps its partial counts in such fields.
\<close>

fun fields_val :: "nat \<Rightarrow> nat list \<Rightarrow> nat" where
  "fields_val B [] = 0"
| "fields_val B (d # ds) = d + B * fields_val B ds"

text \<open>Adding neighbouring fields in pairs.\<close>

fun pairsum :: "nat list \<Rightarrow> nat list" where
  "pairsum (d # e # ds) = (d + e) # pairsum ds"
| "pairsum ds = ds"

section \<open>Counting\<close>

lemma cnt_0 [simp]: "cnt P 0 = 0"
  by (simp add: cnt_def)

lemma cnt_Suc: "cnt P (Suc n) = (if P n then Suc (cnt P n) else cnt P n)"
  by (simp add: cnt_def)

lemma cnt_le: "cnt P n \<le> n"
  by (induction n) (simp_all add: cnt_Suc)

lemma cnt_step_le: "cnt P (a + d) \<le> cnt P a + d"
  by (induction d) (simp_all add: cnt_Suc)

lemma cnt_le_add: "cnt P a \<le> cnt P (a + d)"
  by (induction d) (simp_all add: cnt_Suc)

lemma cnt_mono: "a \<le> b \<Longrightarrow> cnt P a \<le> cnt P b"
  using cnt_le_add [of P a "b - a"] by simp

lemma cnt_diff_le: "a \<le> b \<Longrightarrow> cnt P b \<le> cnt P a + (b - a)"
  using cnt_step_le [of P a "b - a"] by simp

lemma cnt_cong: "(\<And>j. j < n \<Longrightarrow> P j = Q j) \<Longrightarrow> cnt P n = cnt Q n"
  by (induction n) (simp_all add: cnt_Suc)

lemma cnt_compl: "cnt P n + cnt (\<lambda>j. \<not> P j) n = n"
  by (induction n) (simp_all add: cnt_Suc)

lemma cnt_after_miss: "\<not> P a \<Longrightarrow> a < b \<Longrightarrow> Suc (cnt P b) \<le> cnt P a + (b - a)"
  using cnt_diff_le [of "Suc a" b P] by (simp add: cnt_Suc)

lemma cnt_after_hit: "P a \<Longrightarrow> a < b \<Longrightarrow> cnt P a < cnt P b"
  using cnt_mono [of "Suc a" b P] by (simp add: cnt_Suc)

lemma cnt_dvd_div:
  "0 < k \<Longrightarrow> cnt (\<lambda>j. Q j \<and> k dvd cnt Q (Suc j)) b = cnt Q b div k"
proof (induction b)
  case 0
  then show ?case by simp
next
  case (Suc b)
  then show ?case
    by (auto simp add: cnt_Suc div_Suc dvd_eq_mod_eq_0)
qed

subsection \<open>The prefix XOR\<close>

lemma window_1 [simp]: "window x (Suc 0) b \<longleftrightarrow> bit x b"
  by (simp add: window_def cnt_Suc)

lemma odd_diff_chain:
  fixes A B C :: nat
  shows "C \<le> B \<Longrightarrow> B \<le> A \<Longrightarrow> (odd (A - B) \<noteq> odd (B - C)) = odd (A - C)"
  by presburger

lemma window_double:
  "(window x w b \<noteq> (w \<le> b \<and> window x w (b - w))) \<longleftrightarrow> window x (2 * w) b"
proof (cases "w \<le> b")
  case True
  have a: "cnt (bit x) (Suc b - w) \<le> cnt (bit x) (Suc b)"
    and b: "cnt (bit x) (Suc b - 2 * w) \<le> cnt (bit x) (Suc b - w)"
    by (rule cnt_mono, simp)+
  from True have e: "Suc (b - w) = Suc b - w" "Suc b - w - w = Suc b - 2 * w"
    by simp_all
  show ?thesis
    unfolding window_def e using odd_diff_chain [OF b a] True by (simp only: simp_thms)
next
  case False
  then show ?thesis by (simp add: window_def)
qed

lemma prefix_sum_step_window:
  assumes "\<And>b. bit y b \<longleftrightarrow> b < 64 \<and> window x (2 ^ i) b"
  shows "bit (prefix_sum_step i y) b \<longleftrightarrow> b < 64 \<and> window x (2 ^ Suc i) b"
  using window_double [of x "2 ^ i" b]
  by (auto simp add: prefix_sum_step_def bit_simps assms)

lemma prefix_sum_fold_window:
  "bit (fold prefix_sum_step [0..<n] x) b \<longleftrightarrow> b < 64 \<and> window x (2 ^ n) b"
proof (induction n arbitrary: b)
  case 0
  show ?case using bit_imp_le_length [of x b] by auto
next
  case (Suc n)
  show ?case
    using prefix_sum_step_window [of "fold prefix_sum_step [0..<n] x" x n b] Suc
    by simp
qed

lemma bit_prefix_sum: "bit (prefix_sum x) b \<longleftrightarrow> b < 64 \<and> odd (cnt (bit x) (Suc b))"
  by (auto simp add: prefix_sum_def N_BITS_def prefix_sum_fold_window window_def)

lemma bit_shifted_prefix_sum:
  "bit (push_bit 1 (prefix_sum x)) b \<longleftrightarrow> b < 64 \<and> odd (cnt (bit x) b)"
  unfolding bit_push_bit_iff bit_prefix_sum by (cases b) auto

section \<open>The planes of the parallel-prefix popcount\<close>

lemma fold_ppp_step:
  "n \<le> length ps \<Longrightarrow>
   fst (fold ppp_step [0..<n] (NOT m, ps)) = ppp_carry m n \<and>
   length (snd (fold ppp_step [0..<n] (NOT m, ps))) = length ps \<and>
   (\<forall>i<n. snd (fold ppp_step [0..<n] (NOT m, ps)) ! i = push_bit 1 (prefix_sum (ppp_carry m i)))"
proof (induction n)
  case 0
  show ?case by simp
next
  case (Suc n)
  define S where "S = fold ppp_step [0..<n] (NOT m, ps)"
  from Suc have IH: "fst S = ppp_carry m n" "length (snd S) = length ps"
    "\<And>i. i < n \<Longrightarrow> snd S ! i = push_bit 1 (prefix_sum (ppp_carry m i))"
    and n: "n < length ps"
    by (simp_all add: S_def)
  have step: "fold ppp_step [0..<Suc n] (NOT m, ps) = ppp_step n S"
    by (simp add: S_def)
  show ?case
    unfolding step using n
    by (auto simp add: ppp_step_def Let_def IH nth_list_update less_Suc_eq)
qed

lemma ppp_bit_nth:
  "i < 6 \<Longrightarrow> ppp_bit (zp7_ppp_64 m) ! i = push_bit 1 (prefix_sum (ppp_carry m i))"
  using fold_ppp_step [of N_BITS "replicate N_BITS 0" m]
  by (simp add: zp7_ppp_64_def N_BITS_def)

lemma length_ppp_bit: "length (ppp_bit (zp7_ppp_64 m)) = 6"
  using fold_ppp_step [of N_BITS "replicate N_BITS 0" m]
  by (simp add: zp7_ppp_64_def N_BITS_def)

lemma mask_field_zp7_ppp_64 [simp]: "mask_field (zp7_ppp_64 m) = m"
  by (simp add: zp7_ppp_64_def)

lemma carry_arith:
  fixes k n :: nat
  assumes "0 < k"
  shows "(k dvd Suc n \<and> odd (n div k)) \<longleftrightarrow> 2 * k dvd Suc n"
proof
  assume a: "k dvd Suc n \<and> odd (n div k)"
  then obtain q where q: "Suc n = k * q" by (auto simp add: dvd_def)
  then obtain q' where q': "q = Suc q'" by (cases q) auto
  have "k * q' \<le> n" "n < k * Suc q'"
    using q q' assms by auto
  then have "n div k = q'" by (rule div_nat_eqI)
  with a have "even q" by (simp add: q')
  then show "2 * k dvd Suc n" unfolding q by auto
next
  assume "2 * k dvd Suc n"
  then obtain r where r: "Suc n = 2 * k * r" by (auto simp add: dvd_def)
  then obtain r' where r': "r = Suc r'" by (cases r) auto
  have "k * (2 * r' + 1) \<le> n" "n < k * Suc (2 * r' + 1)"
    using r r' assms by auto
  then have "n div k = 2 * r' + 1" by (rule div_nat_eqI)
  moreover have "k dvd Suc n" unfolding r by simp
  ultimately show "k dvd Suc n \<and> odd (n div k)" by simp
qed

lemma bit_doubled_prefix_sum:
  "bit (prefix_sum x * 2) b \<longleftrightarrow> b < 64 \<and> odd (cnt (bit x) b)"
  using bit_shifted_prefix_sum [of x b] by (simp add: push_bit_eq_mult)

lemma bit_ppp_carry:
  "bit (ppp_carry m i) b \<longleftrightarrow>
   b < 64 \<and> \<not> bit m b \<and> 2 ^ i dvd unset_below m (Suc b)"
proof (induction i arbitrary: b)
  case 0
  show ?case by (simp add: bit_simps)
next
  case (Suc i)
  have c: "cnt (bit (ppp_carry m i)) b = unset_below m b div 2 ^ i" if "b < 64"
  proof -
    have "cnt (bit (ppp_carry m i)) b
        = cnt (\<lambda>j. \<not> bit m j \<and> 2 ^ i dvd cnt (\<lambda>j. \<not> bit m j) (Suc j)) b"
      using that by (intro cnt_cong) (simp add: Suc unset_below_def)
    then show ?thesis
      by (simp add: cnt_dvd_div unset_below_def)
  qed
  show ?case
  proof (cases "b < 64 \<and> \<not> bit m b")
    case True
    then have s: "unset_below m (Suc b) = Suc (unset_below m b)"
      by (simp add: unset_below_def cnt_Suc)
    show ?thesis
      using True carry_arith [of "2 ^ i" "unset_below m b"]
      by (simp add: Suc bit_and_iff bit_doubled_prefix_sum c s)
  next
    case False
    then show ?thesis by (auto simp add: Suc bit_and_iff)
  qed
qed

lemma cnt_ppp_carry:
  "b \<le> 64 \<Longrightarrow> cnt (bit (ppp_carry m i)) b = unset_below m b div 2 ^ i"
proof -
  assume "b \<le> 64"
  then have "cnt (bit (ppp_carry m i)) b
      = cnt (\<lambda>j. \<not> bit m j \<and> 2 ^ i dvd cnt (\<lambda>j. \<not> bit m j) (Suc j)) b"
    by (intro cnt_cong) (simp add: bit_ppp_carry unset_below_def)
  then show ?thesis
    by (simp add: cnt_dvd_div unset_below_def)
qed

lemma bit_ppp_plane:
  "i < 6 \<Longrightarrow> bit (ppp_bit (zp7_ppp_64 m) ! i) b \<longleftrightarrow> b < 64 \<and> odd (unset_below m b div 2 ^ i)"
  by (auto simp add: ppp_bit_nth bit_doubled_prefix_sum cnt_ppp_carry)

section \<open>PEXT\<close>

lemma set_unset_below: "set_below m b + unset_below m b = b"
  by (simp add: set_below_def unset_below_def cnt_compl)

lemma unset_below_le: "unset_below m b \<le> b"
  by (simp add: unset_below_def cnt_le)

lemma mod_double:
  fixes n k :: nat
  shows "n mod (2 * k) = n mod k + (if odd (n div k) then k else 0)"
proof -
  have "n mod (k * 2) = k * (n div k mod 2) + n mod k"
    by (rule mod_mult2_eq)
  then show ?thesis
    by (simp add: mult.commute mod_2_eq_odd)
qed

lemma unset_div_left:
  assumes "t \<le> j" and "j \<le> t + unset_below m j mod k" and "0 < k"
  shows "unset_below m t div k = unset_below m j div k"
proof (rule div_nat_eqI)
  have a: "unset_below m t \<le> unset_below m j"
    using assms(1) by (simp add: unset_below_def cnt_mono)
  have b: "unset_below m j \<le> unset_below m t + (j - t)"
    using assms(1) unfolding unset_below_def by (rule cnt_diff_le)
  have d: "unset_below m j = k * (unset_below m j div k) + unset_below m j mod k"
    by simp
  have r: "unset_below m j mod k < k"
    using assms(3) by simp
  show "k * (unset_below m j div k) \<le> unset_below m t"
    using assms(2) b d by linarith
  show "unset_below m t < k * Suc (unset_below m j div k)"
    unfolding mult_Suc_right using a d r by linarith
qed

lemma unset_div_right:
  assumes "bit m j" and "j < t" and "t + unset_below m j mod k \<le> j + k" and "0 < k"
  shows "unset_below m t div k = unset_below m j div k"
proof (rule div_nat_eqI)
  have a: "unset_below m j \<le> unset_below m t"
    using assms(2) by (simp add: unset_below_def cnt_mono)
  have b: "Suc (unset_below m t) \<le> unset_below m j + (t - j)"
    using cnt_after_miss [of "\<lambda>j. \<not> bit m j" j t] assms(1,2)
    by (simp add: unset_below_def)
  have d: "unset_below m j = k * (unset_below m j div k) + unset_below m j mod k"
    by simp
  show "k * (unset_below m j div k) \<le> unset_below m t"
    using a d by linarith
  show "unset_below m t < k * Suc (unset_below m j div k)"
    unfolding mult_Suc_right using assms(2,3) b d by linarith
qed

lemma landing_less:
  assumes "bit m j" and "j < j'" and "0 < k"
    and "t + unset_below m j mod k = j" and "t' + unset_below m j' mod k = j'"
  shows "t < t'"
proof -
  have b: "Suc (unset_below m j') \<le> unset_below m j + (j' - j)"
    using cnt_after_miss [of "\<lambda>j. \<not> bit m j" j j'] assms(1,2)
    by (simp add: unset_below_def)
  have "unset_below m j \<le> unset_below m j'"
    using assms(2) by (simp add: unset_below_def cnt_mono)
  then have "unset_below m j div k \<le> unset_below m j' div k"
    by (rule div_le_mono)
  then have q: "k * (unset_below m j div k) \<le> k * (unset_below m j' div k)"
    by simp
  have d: "unset_below m j = k * (unset_below m j div k) + unset_below m j mod k"
    "unset_below m j' = k * (unset_below m j' div k) + unset_below m j' mod k"
    by simp_all
  show ?thesis
    using assms(2,4,5) b q d by linarith
qed

lemma landing_inj:
  assumes "bit m j" and "bit m j'" and "0 < k"
    and "t + unset_below m j mod k = j" and "t + unset_below m j' mod k = j'"
  shows "j = j'"
proof (rule ccontr)
  assume "j \<noteq> j'"
  then consider "j < j'" | "j' < j" by linarith
  then show False
  proof cases
    case 1
    from landing_less [OF assms(1) 1 assms(3) assms(4) assms(5)] show False by simp
  next
    case 2
    from landing_less [OF assms(2) 2 assms(3) assms(5) assms(4)] show False by simp
  qed
qed

text \<open>One iteration of PEXT.\<close>

lemma plane_at_landing:
  assumes "i < 6" and "j < 64" and "t + unset_below m j mod 2 ^ i = j"
  shows "bit (ppp_bit (zp7_ppp_64 m) ! i) t \<longleftrightarrow> odd (unset_below m j div 2 ^ i)"
proof -
  have "unset_below m t div 2 ^ i = unset_below m j div 2 ^ i"
    using assms(3) by (intro unset_div_left) simp_all
  moreover have "t < 64" using assms(2,3) by simp
  ultimately show ?thesis
    by (simp add: bit_ppp_plane assms(1))
qed

lemma bit_pext_step:
  "bit (pext_step masks i X) q \<longleftrightarrow>
     bit X q \<and> \<not> bit (ppp_bit masks ! i) q
   \<or> bit X (2 ^ i + q) \<and> bit (ppp_bit masks ! i) (2 ^ i + q)"
  using bit_imp_le_length [of X q]
  by (auto simp add: pext_step_def Let_def bit_simps)

lemma pext_step_landing:
  assumes i: "i < 6"
    and X: "\<And>q. bit X q \<longleftrightarrow> (\<exists>j<64. S j \<and> q + unset_below m j mod 2 ^ i = j)"
  shows "bit (pext_step (zp7_ppp_64 m) i X) q \<longleftrightarrow>
    (\<exists>j<64. S j \<and> q + unset_below m j mod 2 ^ Suc i = j)"
proof
  assume "bit (pext_step (zp7_ppp_64 m) i X) q"
  then consider
      "bit X q" "\<not> bit (ppp_bit (zp7_ppp_64 m) ! i) q"
    | "bit X (2 ^ i + q)" "bit (ppp_bit (zp7_ppp_64 m) ! i) (2 ^ i + q)"
    by (auto simp add: bit_pext_step)
  then show "\<exists>j<64. S j \<and> q + unset_below m j mod 2 ^ Suc i = j"
  proof cases
    case 1
    then obtain j where j: "j < 64" "S j" "q + unset_below m j mod 2 ^ i = j"
      by (auto simp add: X)
    with 1 have "even (unset_below m j div 2 ^ i)"
      by (simp add: plane_at_landing [OF i])
    then have "unset_below m j mod 2 ^ Suc i = unset_below m j mod 2 ^ i"
      using mod_double [of "unset_below m j" "2 ^ i"] by simp
    with j show ?thesis by auto
  next
    case 2
    then obtain j where j: "j < 64" "S j" "2 ^ i + q + unset_below m j mod 2 ^ i = j"
      by (auto simp add: X)
    with 2 have "odd (unset_below m j div 2 ^ i)"
      by (simp add: plane_at_landing [OF i])
    then have "unset_below m j mod 2 ^ Suc i = unset_below m j mod 2 ^ i + 2 ^ i"
      using mod_double [of "unset_below m j" "2 ^ i"] by simp
    with j show ?thesis by auto
  qed
next
  assume "\<exists>j<64. S j \<and> q + unset_below m j mod 2 ^ Suc i = j"
  then obtain j where j: "j < 64" "S j" "q + unset_below m j mod 2 ^ Suc i = j"
    by auto
  show "bit (pext_step (zp7_ppp_64 m) i X) q"
  proof (cases "odd (unset_below m j div 2 ^ i)")
    case True
    then have "unset_below m j mod 2 ^ Suc i = unset_below m j mod 2 ^ i + 2 ^ i"
      using mod_double [of "unset_below m j" "2 ^ i"] by simp
    with j have t: "2 ^ i + q + unset_below m j mod 2 ^ i = j" by simp
    then have "bit X (2 ^ i + q)" using j by (auto simp add: X)
    moreover have "bit (ppp_bit (zp7_ppp_64 m) ! i) (2 ^ i + q)"
      using True by (simp add: plane_at_landing [OF i j(1) t])
    ultimately show ?thesis by (simp add: bit_pext_step)
  next
    case False
    then have "unset_below m j mod 2 ^ Suc i = unset_below m j mod 2 ^ i"
      using mod_double [of "unset_below m j" "2 ^ i"] by simp
    with j have t: "q + unset_below m j mod 2 ^ i = j" by simp
    then have "bit X q" using j by (auto simp add: X)
    moreover have "\<not> bit (ppp_bit (zp7_ppp_64 m) ! i) q"
      using False by (simp add: plane_at_landing [OF i j(1) t])
    ultimately show ?thesis by (simp add: bit_pext_step)
  qed
qed

lemma pext_fold_landing:
  "i \<le> 6 \<Longrightarrow>
   bit (fold (pext_step (zp7_ppp_64 m)) [0..<i] (a AND m)) q \<longleftrightarrow>
   (\<exists>j<64. (bit m j \<and> bit a j) \<and> q + unset_below m j mod 2 ^ i = j)"
proof (induction i arbitrary: q)
  case 0
  show ?case using bit_imp_le_length [of m q] by (auto simp add: bit_and_iff)
next
  case (Suc i)
  then have i: "i < 6" and IH: "\<And>q. bit (fold (pext_step (zp7_ppp_64 m)) [0..<i] (a AND m)) q \<longleftrightarrow>
   (\<exists>j<64. (bit m j \<and> bit a j) \<and> q + unset_below m j mod 2 ^ i = j)"
    by simp_all
  have "fold (pext_step (zp7_ppp_64 m)) [0..<Suc i] (a AND m)
      = pext_step (zp7_ppp_64 m) i (fold (pext_step (zp7_ppp_64 m)) [0..<i] (a AND m))"
    by simp
  then show ?case
    using pext_step_landing [OF i IH, of q] by (simp only:)
qed

lemma bit_zp7_pext_64:
  "bit (zp7_pext_64 a m) q \<longleftrightarrow> (\<exists>j<64. bit m j \<and> bit a j \<and> set_below m j = q)"
proof -
  have "q + unset_below m j mod 2 ^ 6 = j \<longleftrightarrow> set_below m j = q" if "j < 64" for j
  proof -
    have "unset_below m j < 2 ^ 6"
      using unset_below_le [of m j] that by simp
    then show ?thesis
      using set_unset_below [of m j] by auto
  qed
  then show ?thesis
    using pext_fold_landing [of 6 m a q]
    by (auto simp add: zp7_pext_64_def zp7_pext_pre_64_def N_BITS_def)
qed

subsection \<open>The reference PEXT\<close>

lemma filter_upt_Suc:
  "filter P [0..<Suc n] = filter P [0..<n] @ (if P n then [n] else [])"
  by simp

lemma nth_filter_upt:
  "j < n \<Longrightarrow> P j \<Longrightarrow> cnt P j < cnt P n \<and> filter P [0..<n] ! cnt P j = j"
proof (induction n)
  case 0
  then show ?case by simp
next
  case (Suc n)
  show ?case
  proof (cases "j = n")
    case True
    with Suc.prems show ?thesis
      by (simp add: cnt_Suc nth_append) (simp add: cnt_def)
  next
    case False
    with Suc have "cnt P j < cnt P n" "filter P [0..<n] ! cnt P j = j"
      by simp_all
    then show ?thesis
      by (simp add: cnt_Suc nth_append) (simp add: cnt_def)
  qed
qed

lemma filter_upt_nth:
  "q < cnt P n \<Longrightarrow> \<exists>j<n. P j \<and> cnt P j = q \<and> filter P [0..<n] ! q = j"
proof (induction n)
  case 0
  then show ?case by simp
next
  case (Suc n)
  show ?case
  proof (cases "q < cnt P n")
    case True
    with Suc.IH obtain j where "j < n" "P j" "cnt P j = q" "filter P [0..<n] ! q = j"
      by auto
    moreover from True have "q < length (filter P [0..<n])"
      by (simp add: cnt_def)
    ultimately show ?thesis
      by (auto simp add: nth_append intro!: exI [of _ j])
  next
    case False
    with Suc.prems have "P n" "q = cnt P n"
      by (auto simp add: cnt_Suc split: if_splits)
    then show ?thesis
      by (auto simp add: nth_append cnt_def intro!: exI [of _ n])
  qed
qed

lemma bit_pext_ref:
  "bit (pext_ref a m) q \<longleftrightarrow> (\<exists>j<64. bit m j \<and> bit a j \<and> set_below m j = q)"
proof
  assume "bit (pext_ref a m) q"
  then have q: "q < cnt (bit m) 64" and b: "bit a (filter (bit m) [0..<64] ! q)"
    by (auto simp add: pext_ref_def bit_horner_sum_bit_word_iff cnt_def)
  from filter_upt_nth [OF q] b show "\<exists>j<64. bit m j \<and> bit a j \<and> set_below m j = q"
    by (auto simp add: set_below_def)
next
  assume "\<exists>j<64. bit m j \<and> bit a j \<and> set_below m j = q"
  then obtain j where j: "j < 64" "bit m j" "bit a j" "cnt (bit m) j = q"
    by (auto simp add: set_below_def)
  from nth_filter_upt [OF j(1), of "bit m"] j
  have "q < cnt (bit m) 64" "filter (bit m) [0..<64] ! q = j"
    by auto
  moreover have "cnt (bit m) 64 \<le> 64" by (rule cnt_le)
  ultimately show "bit (pext_ref a m) q"
    using j(3) by (simp add: pext_ref_def bit_horner_sum_bit_word_iff cnt_def)
qed

lemma set_below_less:
  "j < n \<Longrightarrow> bit m j \<Longrightarrow> set_below m j < set_below m n"
  unfolding set_below_def by (rule cnt_after_hit)

lemma set_below_inj:
  assumes "bit m j" and "bit m j'" and "set_below m j = set_below m j'"
  shows "j = j'"
proof (rule ccontr)
  assume "j \<noteq> j'"
  then consider "j < j'" | "j' < j" by linarith
  then show False
    using set_below_less [of j j' m] set_below_less [of j' j m] assms by cases simp_all
qed

section \<open>The pre-mask of PDEP\<close>

lemma pdep_premask_low:
  assumes "unat p < 64"
  shows "pdep_premask a p = take_bit (unat p) a"
proof -
  have "unat (drop_bit 6 p) = drop_bit 6 (unat p)"
    by (rule unat_drop_bit_eq)
  also have "\<dots> = 0"
    using assms by (simp add: drop_bit_eq_div)
  finally have z: "drop_bit 6 p = 0"
    by (simp only: unat_eq_0)
  have "pdep_premask a p = a AND (push_bit (unat p) 1 - 1)"
    using assms by (simp add: pdep_premask_def shl_64_def z)
  also have "\<dots> = a AND mask (unat p)"
    by (simp add: mask_eq_exp_minus_1)
  finally show ?thesis
    by (simp add: take_bit_eq_mask)
qed

lemma pdep_premask_64: "pdep_premask a 64 = a"
  by (simp add: pdep_premask_def shl_64_def)

lemma pdep_premask_take_bit:
  assumes "unat p \<le> 64"
  shows "pdep_premask a p = take_bit (unat p) a"
proof (cases "unat p < 64")
  case True
  then show ?thesis by (rule pdep_premask_low)
next
  case False
  with assms have "unat p = 64" by simp
  then have "of_nat (unat p) = (of_nat 64 :: u64)" by (simp only:)
  then have "p = 64" by simp
  then show ?thesis by (simp add: pdep_premask_64 take_bit_word_eq_self)
qed

section \<open>The SWAR population count\<close>

subsection \<open>Fields of natural numbers\<close>

lemma and_fields:
  fixes X b B :: nat
  assumes "b < 2 ^ w"
  shows "X AND (b + 2 ^ w * B) = (X mod 2 ^ w AND b) + 2 ^ w * (X div 2 ^ w AND B)"
proof -
  define C where "C = b + 2 ^ w * B"
  have t: "take_bit w C = b"
    using assms by (simp add: take_bit_eq_mod C_def)
  have d: "drop_bit w C = B"
    using assms by (simp add: drop_bit_eq_div C_def)
  have "X AND C = push_bit w (drop_bit w (X AND C)) + take_bit w (X AND C)"
    by (simp only: bits_ident)
  also have "\<dots> = push_bit w (drop_bit w X AND B) + (take_bit w X AND b)"
    by (simp only: take_bit_and drop_bit_and t d)
  finally show ?thesis
    unfolding C_def by (simp only: take_bit_eq_mod drop_bit_eq_div push_bit_eq_mult ac_simps)
qed

lemma and_1_nat: "(a :: nat) AND 1 = a mod 2"
  by (simp add: and_one_eq)

lemma and_3_nat: "(a :: nat) AND 3 = a mod 4"
  using take_bit_eq_mask [of 2 a] by (simp add: take_bit_eq_mod mask_eq_exp_minus_1)

lemma and_15_nat: "(a :: nat) AND 15 = a mod 16"
  using take_bit_eq_mask [of 4 a] by (simp add: take_bit_eq_mod mask_eq_exp_minus_1)

lemma and_le_left_nat: "(a :: nat) AND b \<le> a"
proof -
  have "int (a AND b) \<le> int a"
    by (simp add: of_nat_and_eq)
  then show ?thesis by simp
qed

lemma length_pairsum: "length (pairsum ds) = (length ds + 1) div 2"
  by (induction ds rule: pairsum.induct) simp_all

lemma sum_list_pairsum: "sum_list (pairsum ds) = sum_list ds"
  by (induction ds rule: pairsum.induct) simp_all

lemma pairsum_bound:
  "\<forall>d\<in>set ds. d \<le> c \<Longrightarrow> \<forall>d\<in>set (pairsum ds). d \<le> 2 * c"
  by (induction ds rule: pairsum.induct) auto

lemma fields_val_le:
  "\<forall>d\<in>set ds. d \<le> c \<Longrightarrow> fields_val B ds \<le> c * fields_val B (replicate (length ds) 1)"
proof (induction ds)
  case Nil
  show ?case by simp
next
  case (Cons d ds)
  then have "fields_val B ds \<le> c * fields_val B (replicate (length ds) 1)" and "d \<le> c"
    by simp_all
  then have "d + B * fields_val B ds \<le> c + B * (c * fields_val B (replicate (length ds) 1))"
    by (intro add_mono mult_le_mono2)
  then show ?case
    by (simp add: algebra_simps)
qed

lemma low_field_mod: "d < B \<Longrightarrow> (d + B * y) mod B = (d::nat)"
  by simp

lemma low_field_div: "d < B \<Longrightarrow> (d + B * y) div B = (y::nat)"
  by simp

lemma mod4_mod2_low: "e < 2 \<Longrightarrow> (e + 2 * R) mod 4 mod 2 = (e::nat)"
  by (simp add: mod_mod_cancel)

lemma div4_of_pair: "e < 2 \<Longrightarrow> (e + 2 * R) div 4 = (R::nat) div 2"
proof -
  assume "e < 2"
  then have "(e + 2 * R) div 2 div 2 = R div 2" by simp
  then show ?thesis by (simp only: div_mult2_eq [symmetric]) simp
qed

lemma mod16_mod4_low: "d < 4 \<Longrightarrow> (d + 4 * y) mod 16 mod 4 = (d::nat)"
  by (simp add: mod_mod_cancel)

lemma div16_of_two_fields: "d < 4 \<Longrightarrow> e < 4 \<Longrightarrow> (d + 4 * (e + 4 * R)) div 16 = (R::nat)"
proof -
  assume "d < 4" "e < 4"
  then have "(d + 4 * (e + 4 * R)) div 4 div 4 = R" by (simp only: low_field_div)
  then show ?thesis by (simp only: div_mult2_eq [symmetric]) simp
qed

lemma div16_of_field: "e < 4 \<Longrightarrow> (e + 4 * R) div 16 = (R::nat) div 4"
proof -
  assume "e < 4"
  then have "(e + 4 * R) div 4 div 4 = R div 4" by (simp only: low_field_div)
  then show ?thesis by (simp only: div_mult2_eq [symmetric]) simp
qed

lemma nibble_sum_split:
  fixes d e R :: nat
  assumes "d \<le> 4" "e \<le> 4" "R mod 16 \<le> 4"
  shows "d + 16 * (e + 16 * R) + (e + 16 * R)
       = (d + e + 16 * e + 16 * (R mod 16)) + 256 * (R + R div 16)"
proof -
  define q r where "q = R div 16" and "r = R mod 16"
  have "R = 16 * q + r" by (simp add: q_def r_def)
  then have "d + 16 * (e + 16 * R) + (e + 16 * R)
      = (d + e + 16 * e + 16 * r) + 256 * (R + q)"
    by simp
  then show ?thesis by (simp only: q_def r_def)
qed

lemma nibble_sum_mod:
  fixes d e r :: nat
  assumes "d \<le> 4" "e \<le> 4" "r \<le> 4"
  shows "((d + e + 16 * e + 16 * r) + 256 * y) mod 256 mod 16 = d + e"
proof -
  have "d + e + 16 * e + 16 * r < 256" using assms by simp
  then have "((d + e + 16 * e + 16 * r) + 256 * y) mod 256 = d + e + 16 * e + 16 * r"
    by (rule low_field_mod)
  moreover have "d + e + 16 * e + 16 * r = (d + e) + 16 * (e + r)" by simp
  moreover have "((d + e) + 16 * (e + r)) mod 16 = d + e"
    using assms by (intro low_field_mod) simp
  ultimately show ?thesis by (simp only:)
qed

lemma nibble_sum_div:
  fixes d e r :: nat
  assumes "d \<le> 4" "e \<le> 4" "r \<le> 4"
  shows "((d + e + 16 * e + 16 * r) + 256 * y) div 256 = y"
proof -
  have "d + e + 16 * e + 16 * r < 256" using assms by simp
  then show ?thesis by (rule low_field_div)
qed

lemma step1_sub:
  fixes d e R A :: nat
  shows "A \<le> R \<Longrightarrow> d + 2 * (e + 2 * R) - (e + 4 * A) = d + e + 4 * (R - A)"
  by simp

lemmas and_fields_4 = and_fields [of _ 2, simplified]
lemmas and_fields_16 = and_fields [of _ 4, simplified]
lemmas and_fields_256 = and_fields [of _ 8, simplified]

lemma replicate_half_Suc:
  "fields_val B (replicate (length (d # e # ds) div 2) c)
   = c + B * fields_val B (replicate (length ds div 2) c)"
  by simp

lemma swar_step1:
  "even (length ds) \<Longrightarrow> \<forall>d\<in>set ds. d < 2 \<Longrightarrow>
   fields_val 2 ds - (fields_val 2 ds div 2 AND fields_val 4 (replicate (length ds div 2) 1))
   = fields_val 4 (pairsum ds)"
proof (induction ds rule: pairsum.induct)
  case (1 d e ds)
  let ?R = "fields_val 2 ds"
  let ?M = "fields_val 4 (replicate (length ds div 2) 1)"
  let ?x = "d + 2 * (e + 2 * ?R)"
  from 1 have de: "d < 2" "e < 2" and IH: "?R - (?R div 2 AND ?M) = fields_val 4 (pairsum ds)"
    by simp_all
  have h: "?x div 2 = e + 2 * ?R"
    using de(1) by (rule low_field_div)
  have "?x div 2 AND (1 + 4 * ?M) = (?x div 2 mod 4 AND 1) + 4 * (?x div 2 div 4 AND ?M)"
    by (rule and_fields_4) simp
  moreover have "?x div 2 mod 4 AND 1 = e"
    unfolding h and_1_nat using de(2) by (rule mod4_mod2_low)
  moreover have "?x div 2 div 4 = ?R div 2"
    unfolding h using de(2) by (rule div4_of_pair)
  ultimately have T: "?x div 2 AND (1 + 4 * ?M) = e + 4 * (?R div 2 AND ?M)"
    by (simp only:)
  have "?R div 2 AND ?M \<le> ?R div 2"
    by (rule and_le_left_nat)
  then have le: "?R div 2 AND ?M \<le> ?R"
    by simp
  have "?x - (?x div 2 AND (1 + 4 * ?M)) = (d + e) + 4 * (?R - (?R div 2 AND ?M))"
    unfolding T using le by (rule step1_sub)
  then show ?case
    unfolding replicate_half_Suc fields_val.simps pairsum.simps
    by (simp only: IH)
qed simp_all

lemma swar_step2:
  "even (length ds) \<Longrightarrow> \<forall>d\<in>set ds. d < 4 \<Longrightarrow>
   (fields_val 4 ds AND fields_val 16 (replicate (length ds div 2) 3))
   + (fields_val 4 ds div 4 AND fields_val 16 (replicate (length ds div 2) 3))
   = fields_val 16 (pairsum ds)"
proof (induction ds rule: pairsum.induct)
  case (1 d e ds)
  let ?R = "fields_val 4 ds"
  let ?M = "fields_val 16 (replicate (length ds div 2) 3)"
  let ?x = "d + 4 * (e + 4 * ?R)"
  from 1 have de: "d < 4" "e < 4"
    and IH: "(?R AND ?M) + (?R div 4 AND ?M) = fields_val 16 (pairsum ds)"
    by simp_all
  have "?x AND (3 + 16 * ?M) = (?x mod 16 AND 3) + 16 * (?x div 16 AND ?M)"
    by (rule and_fields_16) simp
  moreover have "?x mod 16 AND 3 = d"
    unfolding and_3_nat using de(1) by (rule mod16_mod4_low)
  moreover have "?x div 16 = ?R"
    using de by (rule div16_of_two_fields)
  ultimately have A: "?x AND (3 + 16 * ?M) = d + 16 * (?R AND ?M)"
    by (simp only:)
  have h: "?x div 4 = e + 4 * ?R"
    using de(1) by (rule low_field_div)
  have "?x div 4 AND (3 + 16 * ?M) = (?x div 4 mod 16 AND 3) + 16 * (?x div 4 div 16 AND ?M)"
    by (rule and_fields_16) simp
  moreover have "?x div 4 mod 16 AND 3 = e"
    unfolding h and_3_nat using de(2) by (rule mod16_mod4_low)
  moreover have "?x div 4 div 16 = ?R div 4"
    unfolding h using de(2) by (rule div16_of_field)
  ultimately have B: "?x div 4 AND (3 + 16 * ?M) = e + 16 * (?R div 4 AND ?M)"
    by (simp only:)
  have "(?x AND (3 + 16 * ?M)) + (?x div 4 AND (3 + 16 * ?M))
      = (d + e) + 16 * ((?R AND ?M) + (?R div 4 AND ?M))"
    unfolding A B by (simp only: distrib_left ac_simps)
  then show ?case
    unfolding replicate_half_Suc fields_val.simps pairsum.simps
    by (simp only: IH)
qed simp_all

lemma fields_val_mod:
  "\<forall>d\<in>set ds. d \<le> c \<Longrightarrow> c < B \<Longrightarrow> fields_val B ds mod B \<le> c"
  by (cases ds) simp_all

lemma swar_step3:
  "even (length ds) \<Longrightarrow> \<forall>d\<in>set ds. d \<le> 4 \<Longrightarrow>
   (fields_val 16 ds + fields_val 16 ds div 16) AND fields_val 256 (replicate (length ds div 2) 15)
   = fields_val 256 (pairsum ds)"
proof (induction ds rule: pairsum.induct)
  case (1 d e ds)
  let ?R = "fields_val 16 ds"
  let ?M = "fields_val 256 (replicate (length ds div 2) 15)"
  let ?x = "d + 16 * (e + 16 * ?R)"
  let ?y = "?x + ?x div 16"
  let ?z = "(d + e + 16 * e + 16 * (?R mod 16)) + 256 * (?R + ?R div 16)"
  from 1 have de: "d \<le> 4" "e \<le> 4" and ds: "\<forall>d\<in>set ds. d \<le> 4"
    and IH: "(?R + ?R div 16) AND ?M = fields_val 256 (pairsum ds)"
    by simp_all
  have r: "?R mod 16 \<le> 4"
    using ds by (rule fields_val_mod) simp
  have "d < 16" using de by simp
  then have h: "?x div 16 = e + 16 * ?R"
    by (rule low_field_div)
  have y: "?y = ?z"
    unfolding h using de r by (rule nibble_sum_split)
  have "?z AND (15 + 256 * ?M) = (?z mod 256 AND 15) + 256 * (?z div 256 AND ?M)"
    by (rule and_fields_256) simp
  moreover have "?z mod 256 AND 15 = d + e"
    unfolding and_15_nat using de r by (rule nibble_sum_mod)
  moreover have "?z div 256 = ?R + ?R div 16"
    using de r by (rule nibble_sum_div)
  ultimately have "?z AND (15 + 256 * ?M) = (d + e) + 256 * ((?R + ?R div 16) AND ?M)"
    by (simp only:)
  then have "?y AND (15 + 256 * ?M) = (d + e) + 256 * fields_val 256 (pairsum ds)"
    by (simp only: y IH)
  then show ?case
    unfolding replicate_half_Suc fields_val.simps pairsum.simps .
qed simp_all

lemma swar_mult_explicit:
  fixes e0 e1 e2 e3 e4 e5 e6 e7 :: nat
  assumes "e0 \<le> 8" "e1 \<le> 8" "e2 \<le> 8" "e3 \<le> 8" "e4 \<le> 8" "e5 \<le> 8" "e6 \<le> 8" "e7 \<le> 8"
  shows "(fields_val 256 [e0, e1, e2, e3, e4, e5, e6, e7] * 72340172838076673) mod 18446744073709551616
           div 72057594037927936 = e0 + e1 + e2 + e3 + e4 + e5 + e6 + e7"
proof -
  let ?S = "e0 + e1 + e2 + e3 + e4 + e5 + e6 + e7"
  let ?L = "282578800148737 * e0 + 282578800148736 * e1 + 282578800148480 * e2 + 282578800082944 * e3 + 282578783305728 * e4 + 282574488338432 * e5 + 281474976710656 * e6"
  let ?H = "1 * e1 + 257 * e2 + 65793 * e3 + 16843009 * e4 + 4311810305 * e5 + 1103823438081 * e6 + 282578800148737 * e7"
  define Lv Sv Hv where "Lv = ?L" and "Sv = ?S" and "Hv = ?H"
  have p: "fields_val 256 [e0, e1, e2, e3, e4, e5, e6, e7] * 72340172838076673
        = (Lv + 72057594037927936 * Sv) + 18446744073709551616 * Hv"
    unfolding Lv_def Sv_def Hv_def by (simp add: algebra_simps)
  have "Lv \<le> 282578800148737 * 8 + 282578800148736 * 8 + 282578800148480 * 8
      + 282578800082944 * 8 + 282578783305728 * 8 + 282574488338432 * 8 + 281474976710656 * 8"
    unfolding Lv_def by (intro add_mono mult_le_mono2 assms)
  then have l: "Lv < 72057594037927936"
    by simp
  have "Sv \<le> 8 + 8 + 8 + 8 + 8 + 8 + 8 + 8"
    unfolding Sv_def by (intro add_mono assms)
  then have "72057594037927936 * Sv \<le> 72057594037927936 * 64"
    by simp
  with l have "Lv + 72057594037927936 * Sv < 18446744073709551616"
    by simp
  then have "((Lv + 72057594037927936 * Sv) + 18446744073709551616 * Hv) mod 18446744073709551616
      = Lv + 72057594037927936 * Sv"
    by (rule low_field_mod)
  moreover have "(Lv + 72057594037927936 * Sv) div 72057594037927936 = Sv"
    using l by (rule low_field_div)
  ultimately show ?thesis
    by (simp only: p Sv_def)
qed

lemma length_8_cases:
  assumes "length es = 8"
  obtains e0 e1 e2 e3 e4 e5 e6 e7 :: 'a where "es = [e0, e1, e2, e3, e4, e5, e6, e7]"
proof -
  from assms obtain e0 e1 e2 e3 e4 e5 e6 e7 :: 'a and r
    where "es = e0 # e1 # e2 # e3 # e4 # e5 # e6 # e7 # r"
    by (auto simp add: eval_nat_numeral length_Suc_conv)
  with assms have "es = [e0, e1, e2, e3, e4, e5, e6, e7]" by simp
  then show thesis by (rule that)
qed

lemma swar_mult:
  assumes "length es = 8" and "\<forall>e\<in>set es. e \<le> 8"
  shows "(fields_val 256 es * 72340172838076673) mod 18446744073709551616 div 72057594037927936
         = sum_list es"
proof -
  from assms(1) obtain e0 e1 e2 e3 e4 e5 e6 e7 where es: "es = [e0, e1, e2, e3, e4, e5, e6, e7]"
    by (rule length_8_cases)
  with assms(2) have "e0 \<le> 8" "e1 \<le> 8" "e2 \<le> 8" "e3 \<le> 8" "e4 \<le> 8" "e5 \<le> 8" "e6 \<le> 8" "e7 \<le> 8"
    by simp_all
  then show ?thesis
    unfolding es by (simp only: swar_mult_explicit) simp
qed

lemma replicate_numeral_Cons: "replicate (numeral k) x = x # replicate (pred_numeral k) x"
  by (simp add: numeral_eq_Suc)

lemma replicate_masks:
  "fields_val 4 (replicate 32 1) = 0x5555555555555555"
  "fields_val 16 (replicate 16 3) = 0x3333333333333333"
  "fields_val 256 (replicate 8 15) = 0x0f0f0f0f0f0f0f0f"
  "fields_val 16 (replicate 16 1) = 0x1111111111111111"
  "fields_val 4 (replicate 32 (Suc 0)) = 0x5555555555555555"
  "fields_val 16 (replicate 16 (Suc 0)) = 0x1111111111111111"
  by (simp_all add: replicate_numeral_Cons)

subsection \<open>The four statements of \<^verbatim>\<open>popcnt_64\<close>\<close>

lemma horner_sum_fields_val: "horner_sum f B xs = fields_val B (map f xs)"
  by (induction xs) simp_all

lemma unat_fields_val:
  "unat (x :: u64) = fields_val 2 (map (\<lambda>j. of_bool (bit x j)) [0..<64])"
proof -
  have "horner_sum of_bool 2 (map (bit (unat x)) [0..<64]) = take_bit 64 (unat x)"
    by (rule horner_sum_bit_eq_take_bit)
  moreover have "take_bit 64 (unat x) = unat x"
    using unsigned_less [of x, where ?'a = nat] by (simp add: take_bit_nat_eq_self)
  moreover have "map (bit (unat x)) [0..<64] = map (bit x) [0..<64]"
    by (simp add: bit_unsigned_iff)
  ultimately have "unat x = horner_sum of_bool 2 (map (bit x) [0..<64])"
    by simp
  then show ?thesis
    by (simp only: horner_sum_fields_val map_map comp_def)
qed

lemma sum_list_of_bool: "sum_list (map (\<lambda>j. of_bool (P j)) [0..<n]) = cnt P n"
  by (induction n) (simp_all add: cnt_Suc)

lemma unat_shift_and:
  "unat (drop_bit k a AND c) = (unat a div 2 ^ k) AND unat (c :: u64)"
  by (simp only: unsigned_and_eq unat_drop_bit_eq) (simp only: drop_bit_eq_div)

lemma unat_popcnt_64: "unat (popcnt_64 x) = cnt (bit x) 64"
proof -
  define bs :: "nat list" where "bs = map (\<lambda>j. of_bool (bit x j)) [0..<64]"
  define ds1 ds2 ds3 where "ds1 = pairsum bs" and "ds2 = pairsum ds1" and "ds3 = pairsum ds2"
  define x1 where "x1 = x - (drop_bit 1 x AND 0x5555555555555555)"
  define x2 where "x2 = (x1 AND 0x3333333333333333) + (drop_bit 2 x1 AND 0x3333333333333333)"
  define x3 where "x3 = (x2 + drop_bit 4 x2) AND 0x0f0f0f0f0f0f0f0f"
  have len: "length bs = 64" "length ds1 = 32" "length ds2 = 16" "length ds3 = 8"
    by (simp_all add: bs_def ds1_def ds2_def ds3_def length_pairsum)
  have b0: "\<forall>d\<in>set bs. d \<le> 1"
    by (simp add: bs_def)
  then have b0': "\<forall>d\<in>set bs. d < 2"
    by auto
  have b1: "\<forall>d\<in>set ds1. d \<le> 2"
    unfolding ds1_def using pairsum_bound [OF b0] by simp
  then have b1': "\<forall>d\<in>set ds1. d < 4"
    by auto
  have b2: "\<forall>d\<in>set ds2. d \<le> 4"
    unfolding ds2_def using pairsum_bound [OF b1] by simp
  have b3: "\<forall>d\<in>set ds3. d \<le> 8"
    unfolding ds3_def using pairsum_bound [OF b2] by simp
  have n0: "unat x = fields_val 2 bs"
    unfolding bs_def by (rule unat_fields_val)
  have s1: "fields_val 2 bs - (fields_val 2 bs div 2 AND 0x5555555555555555) = fields_val 4 ds1"
    using swar_step1 [OF _ b0'] by (simp add: len replicate_masks ds1_def)
  have t1: "unat (drop_bit 1 x AND 0x5555555555555555) = unat x div 2 AND 0x5555555555555555"
    using unat_shift_and [of 1 x "0x5555555555555555"] by simp
  have "unat x div 2 AND 0x5555555555555555 \<le> unat x div 2"
    by (rule and_le_left_nat)
  then have "unat (drop_bit 1 x AND 0x5555555555555555) \<le> unat x"
    unfolding t1 by simp
  then have "unat x1 = unat x - unat (drop_bit 1 x AND 0x5555555555555555)"
    unfolding x1_def by (intro unat_sub) (simp only: word_le_nat_alt)
  then have n1: "unat x1 = fields_val 4 ds1"
    by (simp only: t1 n0 s1)
  have s2: "(fields_val 4 ds1 AND 0x3333333333333333)
      + (fields_val 4 ds1 div 4 AND 0x3333333333333333) = fields_val 16 ds2"
    using swar_step2 [OF _ b1'] by (simp add: len replicate_masks ds2_def)
  have le2: "fields_val 16 ds2 \<le> 4 * 0x1111111111111111"
    using fields_val_le [OF b2, of 16] by (simp add: len replicate_masks)
  have t2: "unat (x1 AND 0x3333333333333333) = fields_val 4 ds1 AND 0x3333333333333333"
    "unat (drop_bit 2 x1 AND 0x3333333333333333) = fields_val 4 ds1 div 4 AND 0x3333333333333333"
    using unat_shift_and [of 2 x1 "0x3333333333333333"]
    by (simp_all add: unsigned_and_eq n1)
  have "unat (x1 AND 0x3333333333333333) + unat (drop_bit 2 x1 AND 0x3333333333333333)
      < 2 ^ LENGTH(64)"
    unfolding t2 s2 using le2 by simp
  then have "unat x2 = unat (x1 AND 0x3333333333333333) + unat (drop_bit 2 x1 AND 0x3333333333333333)"
    unfolding x2_def by (simp only: unat_add_lem)
  then have n2: "unat x2 = fields_val 16 ds2"
    by (simp only: t2 s2)
  have s3: "(fields_val 16 ds2 + fields_val 16 ds2 div 16) AND 0x0f0f0f0f0f0f0f0f
      = fields_val 256 ds3"
    using swar_step3 [OF _ b2] by (simp add: len replicate_masks ds3_def)
  have "unat (drop_bit 4 x2) = drop_bit 4 (unat x2)"
    by (rule unat_drop_bit_eq)
  then have t3: "unat (drop_bit 4 x2) = fields_val 16 ds2 div 16"
    by (simp add: drop_bit_eq_div n2)
  have "unat x2 + unat (drop_bit 4 x2) < 2 ^ LENGTH(64)"
    unfolding t3 n2 using le2 by simp
  then have "unat (x2 + drop_bit 4 x2) = unat x2 + unat (drop_bit 4 x2)"
    by (simp only: unat_add_lem)
  moreover have "unat (0x0f0f0f0f0f0f0f0f :: u64) = 0x0f0f0f0f0f0f0f0f"
    by simp
  ultimately have "unat x3 = (fields_val 16 ds2 + fields_val 16 ds2 div 16) AND 0x0f0f0f0f0f0f0f0f"
    unfolding x3_def by (simp only: unsigned_and_eq n2 t3)
  then have n3: "unat x3 = fields_val 256 ds3"
    by (simp only: s3)
  have "unat (drop_bit 56 (x3 * 0x0101010101010101))
      = drop_bit 56 (unat (x3 * 0x0101010101010101))"
    by (rule unat_drop_bit_eq)
  also have "\<dots> = (unat x3 * 72340172838076673) mod 18446744073709551616 div 72057594037927936"
    by (simp add: drop_bit_eq_div unat_word_ariths)
  also have "\<dots> = sum_list ds3"
    unfolding n3 using len(4) b3 by (rule swar_mult)
  also have "\<dots> = sum_list bs"
    by (simp only: ds3_def ds2_def ds1_def sum_list_pairsum)
  also have "\<dots> = cnt (bit x) 64"
    unfolding bs_def by (rule sum_list_of_bool)
  finally show ?thesis
    by (simp add: popcnt_64_def Let_def x1_def x2_def x3_def)
qed

lemma card_bits: "card {n. bit (x :: u64) n} = cnt (bit x) 64"
proof -
  have "{n. bit x n} = set (filter (bit x) [0..<64])"
    using bit_imp_le_length [of x] by auto
  then have "card {n. bit x n} = length (filter (bit x) [0..<64])"
    by (simp only: distinct_card distinct_filter distinct_upt)
  then show ?thesis
    by (simp add: cnt_def)
qed

section \<open>PDEP\<close>

lemma popcnt_64_set_below: "unat (popcnt_64 m) = set_below m 64"
  by (simp add: unat_popcnt_64 set_below_def)

lemma pdep_premask_popcnt:
  "pdep_premask a (popcnt_64 m) = take_bit (set_below m 64) a"
proof -
  have "unat (popcnt_64 m) \<le> 64"
    by (simp add: unat_popcnt_64 cnt_le)
  then show ?thesis
    by (simp only: pdep_premask_take_bit popcnt_64_set_below)
qed

lemma rank_exists:
  "(\<exists>j<64. bit m j \<and> set_below m j = q) \<longleftrightarrow> q < set_below m 64"
proof
  assume "\<exists>j<64. bit m j \<and> set_below m j = q"
  then show "q < set_below m 64"
    using set_below_less [of _ 64 m] by auto
next
  assume "q < set_below m 64"
  then have "q < cnt (bit m) 64" by (simp add: set_below_def)
  from filter_upt_nth [OF this] show "\<exists>j<64. bit m j \<and> set_below m j = q"
    by (auto simp add: set_below_def)
qed

lemma landing_full:
  "j < 64 \<Longrightarrow> q + unset_below m j mod 2 ^ 6 = j \<longleftrightarrow> set_below m j = q"
proof -
  assume "j < 64"
  then have "unset_below m j < 2 ^ 6"
    using unset_below_le [of m j] by simp
  then show ?thesis
    using set_unset_below [of m j] by auto
qed

lemma bit_premasked:
  "bit (pdep_premask a (popcnt_64 m)) q \<longleftrightarrow>
   (\<exists>j<64. (bit m j \<and> bit a (set_below m j)) \<and> q + unset_below m j mod 2 ^ 6 = j)"
proof -
  have "(\<exists>j<64. (bit m j \<and> bit a (set_below m j)) \<and> q + unset_below m j mod 2 ^ 6 = j)
    \<longleftrightarrow> (\<exists>j<64. bit m j \<and> set_below m j = q) \<and> bit a q"
    using landing_full [of _ q m] by auto
  also have "\<dots> \<longleftrightarrow> q < set_below m 64 \<and> bit a q"
    by (simp only: rank_exists)
  finally show ?thesis
    by (simp add: pdep_premask_popcnt bit_take_bit_iff)
qed

lemma plane_right_of_landing:
  assumes "i < 6" and "bit m j" and "t + unset_below m j mod 2 ^ i = j"
    and "even (unset_below m j div 2 ^ i)"
  shows "\<not> bit (ppp_bit (zp7_ppp_64 m) ! i) (2 ^ i + t)"
proof -
  have "unset_below m j mod 2 ^ i < 2 ^ i" by simp
  with assms(3) have "j < 2 ^ i + t" by linarith
  moreover have "2 ^ i + t + unset_below m j mod 2 ^ i \<le> j + 2 ^ i"
    using assms(3) by simp
  ultimately have "unset_below m (2 ^ i + t) div 2 ^ i = unset_below m j div 2 ^ i"
    using assms(2) by (intro unset_div_right) simp_all
  with assms(4) show ?thesis
    by (simp add: bit_ppp_plane assms(1))
qed

lemma bit_pdep_bit:
  "bit (pdep_bit masks i) q \<longleftrightarrow> bit (ppp_bit masks ! i) (2 ^ i + q)"
  by (simp add: pdep_bit_def bit_drop_bit_eq)

lemma pdep_bit_at_source:
  assumes i: "i < 6" and j: "j < 64" "bit m j" "q + unset_below m j mod 2 ^ Suc i = j"
  shows "bit (pdep_bit (zp7_ppp_64 m) i) q \<longleftrightarrow> odd (unset_below m j div 2 ^ i)"
proof (cases "odd (unset_below m j div 2 ^ i)")
  case True
  then have "unset_below m j mod 2 ^ Suc i = unset_below m j mod 2 ^ i + 2 ^ i"
    using mod_double [of "unset_below m j" "2 ^ i"] by simp
  with j have "2 ^ i + q + unset_below m j mod 2 ^ i = j" by simp
  from plane_at_landing [OF i j(1) this] True show ?thesis
    by (simp add: bit_pdep_bit)
next
  case False
  then have "unset_below m j mod 2 ^ Suc i = unset_below m j mod 2 ^ i"
    using mod_double [of "unset_below m j" "2 ^ i"] by simp
  with j have "q + unset_below m j mod 2 ^ i = j" by simp
  from plane_right_of_landing [OF i j(2) this] False show ?thesis
    by (simp add: bit_pdep_bit)
qed

text \<open>The bits of the two summands of one iteration of PDEP.\<close>

lemma bit_pdep_stay:
  assumes i: "i < 6" and S: "\<And>j. S j \<Longrightarrow> bit m j"
    and X: "\<And>q. bit X q \<longleftrightarrow> (\<exists>j<64. S j \<and> q + unset_below m j mod 2 ^ Suc i = j)"
  shows "bit (X AND NOT (pdep_bit (zp7_ppp_64 m) i)) q \<longleftrightarrow>
    (\<exists>j<64. S j \<and> q + unset_below m j mod 2 ^ i = j \<and> even (unset_below m j div 2 ^ i))"
proof
  assume "bit (X AND NOT (pdep_bit (zp7_ppp_64 m) i)) q"
  then have "bit X q" and n: "\<not> bit (pdep_bit (zp7_ppp_64 m) i) q"
    by (simp_all add: bit_and_iff bit_not_iff)
  then obtain j where j: "j < 64" "S j" "q + unset_below m j mod 2 ^ Suc i = j"
    by (auto simp add: X)
  with n have e: "even (unset_below m j div 2 ^ i)"
    using pdep_bit_at_source [OF i j(1) S [OF j(2)] j(3)] by simp
  then have "unset_below m j mod 2 ^ Suc i = unset_below m j mod 2 ^ i"
    using mod_double [of "unset_below m j" "2 ^ i"] by simp
  with j e show "\<exists>j<64. S j \<and> q + unset_below m j mod 2 ^ i = j \<and> even (unset_below m j div 2 ^ i)"
    by auto
next
  assume "\<exists>j<64. S j \<and> q + unset_below m j mod 2 ^ i = j \<and> even (unset_below m j div 2 ^ i)"
  then obtain j where j: "j < 64" "S j" "q + unset_below m j mod 2 ^ i = j"
    and e: "even (unset_below m j div 2 ^ i)"
    by auto
  from e have "unset_below m j mod 2 ^ Suc i = unset_below m j mod 2 ^ i"
    using mod_double [of "unset_below m j" "2 ^ i"] by simp
  with j have s: "q + unset_below m j mod 2 ^ Suc i = j" by simp
  with j have "bit X q" by (auto simp add: X)
  moreover have "\<not> bit (pdep_bit (zp7_ppp_64 m) i) q"
    using pdep_bit_at_source [OF i j(1) S [OF j(2)] s] e by simp
  moreover have "q < 64" using j by simp
  ultimately show "bit (X AND NOT (pdep_bit (zp7_ppp_64 m) i)) q"
    by (simp add: bit_and_iff bit_not_iff)
qed

lemma bit_pdep_move:
  assumes i: "i < 6" and S: "\<And>j. S j \<Longrightarrow> bit m j"
    and X: "\<And>q. bit X q \<longleftrightarrow> (\<exists>j<64. S j \<and> q + unset_below m j mod 2 ^ Suc i = j)"
  shows "bit (push_bit (2 ^ i) (X AND pdep_bit (zp7_ppp_64 m) i)) q \<longleftrightarrow>
    (\<exists>j<64. S j \<and> q + unset_below m j mod 2 ^ i = j \<and> odd (unset_below m j div 2 ^ i))"
proof
  assume "bit (push_bit (2 ^ i) (X AND pdep_bit (zp7_ppp_64 m) i)) q"
  then have q: "2 ^ i \<le> q" and "bit X (q - 2 ^ i)"
    and n: "bit (pdep_bit (zp7_ppp_64 m) i) (q - 2 ^ i)"
    by (simp_all add: bit_push_bit_iff bit_and_iff)
  then obtain j where j: "j < 64" "S j" "q - 2 ^ i + unset_below m j mod 2 ^ Suc i = j"
    by (auto simp add: X)
  with n have e: "odd (unset_below m j div 2 ^ i)"
    using pdep_bit_at_source [OF i j(1) S [OF j(2)] j(3)] by simp
  then have "unset_below m j mod 2 ^ Suc i = unset_below m j mod 2 ^ i + 2 ^ i"
    using mod_double [of "unset_below m j" "2 ^ i"] by simp
  with j q have "q + unset_below m j mod 2 ^ i = j" by simp
  with j e show "\<exists>j<64. S j \<and> q + unset_below m j mod 2 ^ i = j \<and> odd (unset_below m j div 2 ^ i)"
    by auto
next
  assume "\<exists>j<64. S j \<and> q + unset_below m j mod 2 ^ i = j \<and> odd (unset_below m j div 2 ^ i)"
  then obtain j where j: "j < 64" "S j" "q + unset_below m j mod 2 ^ i = j"
    and e: "odd (unset_below m j div 2 ^ i)"
    by auto
  from e have r: "unset_below m j mod 2 ^ Suc i = unset_below m j mod 2 ^ i + 2 ^ i"
    using mod_double [of "unset_below m j" "2 ^ i"] by simp
  have "unset_below m j mod 2 ^ Suc i \<le> unset_below m j"
    by (rule mod_less_eq_dividend)
  also have "\<dots> \<le> j" by (rule unset_below_le)
  finally have q: "2 ^ i \<le> q" using r j(3) by linarith
  with r j have s: "q - 2 ^ i + unset_below m j mod 2 ^ Suc i = j" by simp
  with j have "bit X (q - 2 ^ i)" by (auto simp add: X)
  moreover have "bit (pdep_bit (zp7_ppp_64 m) i) (q - 2 ^ i)"
    using pdep_bit_at_source [OF i j(1) S [OF j(2)] s] e by simp
  moreover have "q < 64" using j by simp
  ultimately show "bit (push_bit (2 ^ i) (X AND pdep_bit (zp7_ppp_64 m) i)) q"
    using q by (simp add: bit_push_bit_iff bit_and_iff)
qed

lemma pdep_step_disjoint:
  assumes i: "i < 6" and S: "\<And>j. S j \<Longrightarrow> bit m j"
    and X: "\<And>q. bit X q \<longleftrightarrow> (\<exists>j<64. S j \<and> q + unset_below m j mod 2 ^ Suc i = j)"
  shows "(X AND NOT (pdep_bit (zp7_ppp_64 m) i))
         AND push_bit (2 ^ i) (X AND pdep_bit (zp7_ppp_64 m) i) = 0"
proof (rule bit_word_eqI)
  fix q
  let ?stay = "X AND NOT (pdep_bit (zp7_ppp_64 m) i)"
  let ?move = "push_bit (2 ^ i) (X AND pdep_bit (zp7_ppp_64 m) i)"
  have stay: "bit ?stay q \<longleftrightarrow>
    (\<exists>j<64. S j \<and> q + unset_below m j mod 2 ^ i = j \<and> even (unset_below m j div 2 ^ i))"
    using i S X by (rule bit_pdep_stay)
  have move: "bit ?move q \<longleftrightarrow>
    (\<exists>j<64. S j \<and> q + unset_below m j mod 2 ^ i = j \<and> odd (unset_below m j div 2 ^ i))"
    using i S X by (rule bit_pdep_move)
  have "\<not> (bit ?stay q \<and> bit ?move q)"
  proof
    assume "bit ?stay q \<and> bit ?move q"
    then obtain j j' where j: "S j" "q + unset_below m j mod 2 ^ i = j"
        "even (unset_below m j div 2 ^ i)"
      and j': "S j'" "q + unset_below m j' mod 2 ^ i = j'"
        "odd (unset_below m j' div 2 ^ i)"
      unfolding stay move by blast
    have "j = j'"
      using S [OF j(1)] S [OF j'(1)] _ j(2) j'(2) by (rule landing_inj) simp
    with j(3) j'(3) show False by simp
  qed
  then show "bit (?stay AND ?move) q = bit (0 :: u64) q"
    by (simp only: bit_and_iff [of ?stay] bit_0_eq) simp
qed

lemma pdep_step_landing:
  assumes i: "i < 6" and S: "\<And>j. S j \<Longrightarrow> bit m j"
    and X: "\<And>q. bit X q \<longleftrightarrow> (\<exists>j<64. S j \<and> q + unset_below m j mod 2 ^ Suc i = j)"
  shows "bit (pdep_step (zp7_ppp_64 m) i X) q \<longleftrightarrow>
    (\<exists>j<64. S j \<and> q + unset_below m j mod 2 ^ i = j)"
proof -
  let ?stay = "X AND NOT (pdep_bit (zp7_ppp_64 m) i)"
  let ?move = "push_bit (2 ^ i) (X AND pdep_bit (zp7_ppp_64 m) i)"
  have stay: "bit ?stay q \<longleftrightarrow>
    (\<exists>j<64. S j \<and> q + unset_below m j mod 2 ^ i = j \<and> even (unset_below m j div 2 ^ i))"
    using i S X by (rule bit_pdep_stay)
  have move: "bit ?move q \<longleftrightarrow>
    (\<exists>j<64. S j \<and> q + unset_below m j mod 2 ^ i = j \<and> odd (unset_below m j div 2 ^ i))"
    using i S X by (rule bit_pdep_move)
  have "?stay AND ?move = 0"
    using i S X by (rule pdep_step_disjoint)
  then have "?stay + ?move = ?stay OR ?move"
    by (rule disjunctive_add_eq_or)
  then have "bit (pdep_step (zp7_ppp_64 m) i X) q \<longleftrightarrow> bit ?stay q \<or> bit ?move q"
    by (simp only: pdep_step_def Let_def bit_or_iff)
  then show ?thesis
    unfolding stay move by blast
qed

subsection \<open>The descending loop\<close>

lemma pdep_loop_snoc:
  "pdep_loop masks (is @ [i]) a = pdep_step masks i (pdep_loop masks is a)"
  by (simp add: pdep_loop_def)

lemma rev_upt_from: "k < n \<Longrightarrow> rev [k..<n] = rev [Suc k..<n] @ [k]"
  by (simp add: upt_conv_Cons)

lemma pdep_loop_landing:
  "n \<le> 6 \<Longrightarrow>
   bit (pdep_loop (zp7_ppp_64 m) (rev [6 - n..<6]) a) q \<longleftrightarrow>
   (\<exists>j<64. (bit m j \<and> bit a (set_below m j)) \<and> q + unset_below m j mod 2 ^ (6 - n) = j)"
proof (induction n arbitrary: q)
  case 0
  show ?case
    by (simp add: pdep_loop_def bit_premasked)
next
  case (Suc n)
  let ?i = "6 - Suc n"
  from Suc.prems have i: "?i < 6" and s: "Suc ?i = 6 - n" by simp_all
  have IH: "bit (pdep_loop (zp7_ppp_64 m) (rev [Suc ?i..<6]) a) q \<longleftrightarrow>
    (\<exists>j<64. (bit m j \<and> bit a (set_below m j)) \<and> q + unset_below m j mod 2 ^ Suc ?i = j)" for q
    unfolding s using Suc.prems by (intro Suc.IH) simp
  have "pdep_loop (zp7_ppp_64 m) (rev [?i..<6]) a
      = pdep_step (zp7_ppp_64 m) ?i (pdep_loop (zp7_ppp_64 m) (rev [Suc ?i..<6]) a)"
    using i by (simp only: rev_upt_from pdep_loop_snoc)
  moreover have "bit (pdep_step (zp7_ppp_64 m) ?i (pdep_loop (zp7_ppp_64 m) (rev [Suc ?i..<6]) a)) q
    \<longleftrightarrow> (\<exists>j<64. (bit m j \<and> bit a (set_below m j)) \<and> q + unset_below m j mod 2 ^ ?i = j)"
    using i _ IH by (rule pdep_step_landing) simp
  ultimately show ?case
    by (simp only:)
qed

lemma bit_pdep_entering:
  assumes "i < 6"
  shows "bit (pdep_entering (zp7_ppp_64 m) i a) q \<longleftrightarrow>
   (\<exists>j<64. (bit m j \<and> bit a (set_below m j)) \<and> q + unset_below m j mod 2 ^ Suc i = j)"
proof -
  from assms have "6 - (6 - Suc i) = Suc i" by simp
  with pdep_loop_landing [of "6 - Suc i" m a q] show ?thesis
    by (simp add: pdep_entering_def N_BITS_def)
qed

lemma bit_zp7_pdep_64:
  "bit (zp7_pdep_64 a m) q \<longleftrightarrow> q < 64 \<and> bit m q \<and> bit a (set_below m q)"
  using pdep_loop_landing [of 6 m a q]
  by (auto simp add: zp7_pdep_64_def zp7_pdep_pre_64_def N_BITS_def)

lemma bit_pdep_ref:
  "bit (pdep_ref a m) q \<longleftrightarrow> q < 64 \<and> bit m q \<and> bit a (set_below m q)"
  by (auto simp add: pdep_ref_def bit_horner_sum_bit_word_iff set_below_def cnt_def)

lemma pdep_run_split:
  assumes "i < 6"
  shows "zp7_pdep_pre_64 a masks = fold (pdep_step masks) (rev [0..<Suc i]) (pdep_entering masks i a)"
proof -
  from assms have "[0..<6] = [0..<Suc i] @ [Suc i..<6]"
    using upt_add_eq_append [of 0 "Suc i" "6 - Suc i"] by simp
  then show ?thesis
    by (simp add: zp7_pdep_pre_64_def pdep_entering_def pdep_loop_def N_BITS_def)
qed

section \<open>The carry-less multiply\<close>

lemma bit_fold_xor:
  "bit (fold (\<lambda>i acc. if P i then acc XOR f i else acc) [0..<n] z) k
   \<longleftrightarrow> (bit z k \<noteq> odd (cnt (\<lambda>i. P i \<and> bit (f i) k) n))"
  by (induction n) (auto simp add: cnt_Suc bit_xor_iff)

lemma cnt_below: "k \<le> n \<Longrightarrow> cnt (\<lambda>i. P i \<and> i < k) n = cnt P k"
proof (induction n)
  case 0
  then show ?case by simp
next
  case (Suc n)
  show ?case
  proof (cases "k = Suc n")
    case True
    have "cnt (\<lambda>i. P i \<and> i < Suc n) (Suc n) = cnt P (Suc n)"
      by (rule cnt_cong) simp
    with True show ?thesis by simp
  next
    case False
    with Suc show ?thesis by (simp add: cnt_Suc)
  qed
qed

lemma bit_ucast_neg_2: "bit (ucast (- 2 :: u64) :: m128i) n \<longleftrightarrow> 0 < n \<and> n < 64"
  by (simp only: bit_ucast_iff bit_minus_2_iff) auto

lemma bit_clmul_neg_2:
  assumes "k < 64"
  shows "bit (clmul_64 x (- 2)) k \<longleftrightarrow> odd (cnt (bit x) k)"
proof -
  have "(bit x i \<and> bit (push_bit i (ucast (- 2 :: u64)) :: m128i) k) = (bit x i \<and> i < k)" for i
    unfolding bit_push_bit_iff bit_ucast_neg_2 using assms by auto
  then have "cnt (\<lambda>i. bit x i \<and> bit (push_bit i (ucast (- 2 :: u64)) :: m128i) k) 64
      = cnt (\<lambda>i. bit x i \<and> i < k) 64"
    by (simp only:)
  also have "\<dots> = cnt (bit x) k"
    using assms by (intro cnt_below) simp
  finally show ?thesis
    by (simp add: clmul_64_def bit_fold_xor)
qed

lemma clmul_neg_2_low: "ucast (clmul_64 x (- 2)) = push_bit 1 (prefix_sum x)"
proof (rule bit_word_eqI)
  fix k
  assume "k < LENGTH(64)"
  then show "bit (ucast (clmul_64 x (- 2)) :: u64) k \<longleftrightarrow> bit (push_bit 1 (prefix_sum x)) k"
    by (simp add: bit_ucast_iff bit_clmul_neg_2 bit_doubled_prefix_sum)
qed

lemma ucast_up_down: "ucast (ucast (x :: u64) :: m128i) = x"
  by (rule bit_word_eqI) (simp add: bit_ucast_iff)

lemma ppp_step_clmul_sim:
  "ppp_step_clmul i (ucast u, ps) = (ucast (fst (ppp_step i (u, ps))), snd (ppp_step i (u, ps)))"
proof -
  have a: "(ucast u :: m128i) AND clmul_64 u (- 2) = ucast (u AND push_bit 1 (prefix_sum u))"
  proof (rule bit_word_eqI)
    fix n
    show "bit ((ucast u :: m128i) AND clmul_64 u (- 2)) n
      \<longleftrightarrow> bit (ucast (u AND push_bit 1 (prefix_sum u)) :: m128i) n"
    proof (cases "n < 64")
      case True
      then show ?thesis
        by (simp add: bit_and_iff bit_ucast_iff bit_clmul_neg_2 bit_doubled_prefix_sum)
    next
      case False
      then have "\<not> bit u n"
        using bit_imp_le_length [of u n] by auto
      then show ?thesis
        by (simp add: bit_and_iff bit_ucast_iff)
    qed
  qed
  have "ppp_step_clmul i (ucast u, ps)
      = (ucast u AND clmul_64 (ucast (ucast u :: m128i)) (ucast (ucast (- 2 :: u64) :: m128i)),
         ps[i := ucast (clmul_64 (ucast (ucast u :: m128i)) (ucast (ucast (- 2 :: u64) :: m128i)))])"
    by (simp only: ppp_step_clmul_def Let_def fst_conv snd_conv mm_cvtsi64_si128_def
        mm_cvtsi128_si64_def mm_clmulepi64_si128_0_def)
  also have "\<dots> = (ucast u AND clmul_64 u (- 2), ps[i := ucast (clmul_64 u (- 2))])"
    by (simp only: ucast_up_down)
  also have "\<dots> = (ucast (u AND push_bit 1 (prefix_sum u)), ps[i := push_bit 1 (prefix_sum u)])"
    by (simp only: a clmul_neg_2_low)
  also have "\<dots> = (ucast (fst (ppp_step i (u, ps))), snd (ppp_step i (u, ps)))"
    by (simp only: ppp_step_def Let_def fst_conv snd_conv)
  finally show ?thesis .
qed

lemma fold_ppp_step_clmul:
  "fold ppp_step_clmul [0..<n] (ucast u, ps)
   = (ucast (fst (fold ppp_step [0..<n] (u, ps))), snd (fold ppp_step [0..<n] (u, ps)))"
proof (induction n)
  case 0
  show ?case by simp
next
  case (Suc n)
  have "fold ppp_step_clmul [0..<Suc n] (ucast u, ps)
      = ppp_step_clmul n (fold ppp_step_clmul [0..<n] (ucast u, ps))"
    by simp
  also have "\<dots> = ppp_step_clmul n
      (ucast (fst (fold ppp_step [0..<n] (u, ps))), snd (fold ppp_step [0..<n] (u, ps)))"
    by (simp only: Suc)
  also have "\<dots> = (ucast (fst (ppp_step n (fold ppp_step [0..<n] (u, ps)))),
      snd (ppp_step n (fold ppp_step [0..<n] (u, ps))))"
    by (simp only: ppp_step_clmul_sim prod.collapse)
  finally show ?case by simp
qed

section \<open>The references, bit by bit\<close>

text \<open>\<open>pext_ref\<close> and \<open>pdep_ref\<close> are what the bit-by-bit scans compute.\<close>

lemma pext_scan_fold:
  "n \<le> 64 \<Longrightarrow>
   fst (fold (pext_scan_step a m) [0..<n] (0, 0)) = set_below m n \<and>
   (\<forall>q. bit (snd (fold (pext_scan_step a m) [0..<n] (0, 0))) q
      \<longleftrightarrow> (\<exists>j<n. bit m j \<and> bit a j \<and> set_below m j = q))"
proof (induction n)
  case 0
  show ?case by (simp add: set_below_def)
next
  case (Suc n)
  define S where "S = fold (pext_scan_step a m) [0..<n] (0, 0)"
  from Suc have k: "fst S = set_below m n"
    and d: "\<And>q. bit (snd S) q \<longleftrightarrow> (\<exists>j<n. bit m j \<and> bit a j \<and> set_below m j = q)"
    and n: "n < 64"
    by (simp_all add: S_def)
  have step: "fold (pext_scan_step a m) [0..<Suc n] (0, 0) = pext_scan_step a m n S"
    by (simp add: S_def)
  have below: "set_below m n < 64"
    using n cnt_le [of "bit m" n] by (simp add: set_below_def)
  have fresh: "set_below m j < set_below m n" if "j < n" "bit m j" for j
    using that by (rule set_below_less)
  show ?case
  proof (cases "bit m n")
    case True
    then have s: "set_below m (Suc n) = Suc (set_below m n)"
      by (simp add: set_below_def cnt_Suc)
    show ?thesis
      unfolding step using True below
      by (auto simp add: pext_scan_step_def Let_def k d s bit_set_bit_iff bit_unset_bit_iff
          less_Suc_eq dest: fresh)
  next
    case False
    then have s: "set_below m (Suc n) = set_below m n"
      by (simp add: set_below_def cnt_Suc)
    show ?thesis
      unfolding step using False
      by (auto simp add: pext_scan_step_def Let_def k d s less_Suc_eq)
  qed
qed

lemma pext_ref_scan: "pext_ref a m = pext_scan a m"
  using pext_scan_fold [of 64 a m]
  by (intro bit_word_eqI) (simp add: bit_pext_ref pext_scan_def)

lemma pdep_scan_fold:
  "n \<le> 64 \<Longrightarrow>
   fst (fold (pdep_scan_step a m) [0..<n] (0, 0)) = set_below m n \<and>
   (\<forall>q. bit (snd (fold (pdep_scan_step a m) [0..<n] (0, 0))) q
      \<longleftrightarrow> q < n \<and> bit m q \<and> bit a (set_below m q))"
proof (induction n)
  case 0
  show ?case by (simp add: set_below_def)
next
  case (Suc n)
  define S where "S = fold (pdep_scan_step a m) [0..<n] (0, 0)"
  from Suc have k: "fst S = set_below m n"
    and d: "\<And>q. bit (snd S) q \<longleftrightarrow> q < n \<and> bit m q \<and> bit a (set_below m q)"
    and n: "n < 64"
    by (simp_all add: S_def)
  have step: "fold (pdep_scan_step a m) [0..<Suc n] (0, 0) = pdep_scan_step a m n S"
    by (simp add: S_def)
  show ?case
  proof (cases "bit m n")
    case True
    then have s: "set_below m (Suc n) = Suc (set_below m n)"
      by (simp add: set_below_def cnt_Suc)
    show ?thesis
      unfolding step using True n
      by (auto simp add: pdep_scan_step_def Let_def k d s bit_set_bit_iff bit_unset_bit_iff
          less_Suc_eq)
  next
    case False
    then have s: "set_below m (Suc n) = set_below m n"
      by (simp add: set_below_def cnt_Suc)
    show ?thesis
      unfolding step using False
      by (auto simp add: pdep_scan_step_def Let_def k d s less_Suc_eq)
  qed
qed

lemma pdep_ref_scan: "pdep_ref a m = pdep_scan a m"
  using pdep_scan_fold [of 64 a m] bit_imp_le_length [of m]
  by (intro bit_word_eqI) (auto simp add: bit_pdep_ref pdep_scan_def)

section \<open>Examples\<close>

text \<open>
  The disjointness of the two summands of a PDEP iteration is a property of the values
  that a run reaches. For the mask 1 a run enters iteration 0 with 0 or 1; at the word 6,
  which no run reaches there, the two parts overlap in bit 2.
\<close>

lemma pdep_step_overlap_for_unreachable_value:
  "(6 AND NOT (pdep_bit (zp7_ppp_64 1) 0)) AND push_bit (2 ^ 0) (6 AND pdep_bit (zp7_ppp_64 1) 0) = 4"
  by code_simp

text \<open>The carry-less multiply on small operands: \<open>(x + 1)\<^sup>2 = x\<^sup>2 + 1\<close> over GF(2).\<close>

lemma clmul_64_small: "clmul_64 3 3 = 5" "clmul_64 7 0xFFFFFFFFFFFFFFFF = 0x2FFFFFFFFFFFFFFFD"
  by code_simp+

section \<open>The claims\<close>

text \<open>
  C1. For every 64-bit \<open>a\<close> and every 64-bit mask, \<open>zp7_pext_64 a mask\<close> is the reference
  PEXT result: the bits of \<open>a\<close> at the set positions of the mask, packed from bit 0 upwards
  in the order of the mask; and every output bit at an index that is at least the number of
  set bits of the mask is zero. (By \<open>pext_ref_scan\<close> the reference is also the result of the
  bit-by-bit scan.)
\<close>

theorem zp7_pext_64_correct:
  "zp7_pext_64 a m = pext_ref a m \<and>
   (\<forall>k. length (filter (bit m) [0..<64]) \<le> k \<longrightarrow> \<not> bit (zp7_pext_64 a m) k)"
proof
  show "zp7_pext_64 a m = pext_ref a m"
    by (rule bit_word_eqI) (simp add: bit_zp7_pext_64 bit_pext_ref)
  show "\<forall>k. length (filter (bit m) [0..<64]) \<le> k \<longrightarrow> \<not> bit (zp7_pext_64 a m) k"
    using set_below_less [of _ 64 m]
    by (fastforce simp add: bit_zp7_pext_64 set_below_def cnt_def)
qed

theorem zp7_pext_64_correct_witness:
  "length (filter (bit (0x0F0F0F0F0F0F0F0F :: u64)) [0..<64]) \<le> 40 \<and>
   \<not> bit (zp7_pext_64 0xFFFFFFFFFFFFFFFF 0x0F0F0F0F0F0F0F0F) 40 \<and>
   zp7_pext_64 0xFFFFFFFFFFFFFFFF 0x0F0F0F0F0F0F0F0F = pext_ref 0xFFFFFFFFFFFFFFFF 0x0F0F0F0F0F0F0F0F \<and>
   pext_ref 0xFFFFFFFFFFFFFFFF 0x0F0F0F0F0F0F0F0F = 0xFFFFFFFF"
proof -
  have l: "length (filter (bit (0x0F0F0F0F0F0F0F0F :: u64)) [0..<64]) \<le> 40"
    by code_simp
  have r: "pext_ref 0xFFFFFFFFFFFFFFFF 0x0F0F0F0F0F0F0F0F = 0xFFFFFFFF"
    by code_simp
  show ?thesis
    using zp7_pext_64_correct [of "0xFFFFFFFFFFFFFFFF" "0x0F0F0F0F0F0F0F0F"] l r by blast
qed

text \<open>
  C3. For every 64-bit mask, every plane index \<open>i\<close> in 0..5 and every bit position \<open>b\<close> in
  0..63, bit \<open>b\<close> of plane \<open>i\<close> of \<open>zp7_ppp_64 mask\<close> is set if and only if binary digit \<open>i\<close>
  of the number of positions strictly below \<open>b\<close> at which the mask is unset is 1. The count
  runs over \<open>[0..<b]\<close>, so position \<open>b\<close> itself is never counted.
\<close>

theorem zp7_ppp_64_planes:
  "i < 6 \<Longrightarrow> b < 64 \<Longrightarrow>
   bit (ppp_bit (zp7_ppp_64 m) ! i) b \<longleftrightarrow> bit (length (filter (\<lambda>j. \<not> bit m j) [0..<b])) i"
  using bit_iff_odd [of "length (filter (\<lambda>j. \<not> bit m j) [0..<b])" i]
  by (simp add: bit_ppp_plane unset_below_def cnt_def)

theorem zp7_ppp_64_planes_witness:
  "(1 :: nat) < 6 \<and> (7 :: nat) < 64 \<and>
   bit (ppp_bit (zp7_ppp_64 0x0F0F0F0F0F0F0F0F) ! 1) 7 \<and>
   bit (length (filter (\<lambda>j. \<not> bit (0x0F0F0F0F0F0F0F0F :: u64) j) [0..<7])) 1"
proof -
  have r: "bit (length (filter (\<lambda>j. \<not> bit (0x0F0F0F0F0F0F0F0F :: u64) j) [0..<7])) 1"
    by code_simp
  show ?thesis
    using zp7_ppp_64_planes [of 1 7 "0x0F0F0F0F0F0F0F0F"] r by simp
qed

text \<open>
  C10. PEXT is insensitive to the input bits outside the mask: for every 64-bit \<open>a\<close> and
  mask, \<open>zp7_pext_64 a mask = zp7_pext_64 (a AND mask) mask\<close>.
\<close>

theorem zp7_pext_64_ignores_unselected:
  "zp7_pext_64 a m = zp7_pext_64 (a AND m) m"
  by (simp add: zp7_pext_64_def zp7_pext_pre_64_def and.assoc)

text \<open>
  C6. The portable pre-mask of PDEP handles a population count of 64 without wrap-around:
  for every 64-bit \<open>a\<close> and every \<open>p\<close> in 0..64, with the 64-bit shift taken modulo 64, the
  expression \<^verbatim>\<open>a & (((1 << p) & ~(p >> 6)) - 1)\<close> is the low \<open>p\<close> bits of \<open>a\<close>; at \<open>p = 64\<close>
  it is \<open>a\<close> itself.
\<close>

theorem pdep_premask_correct:
  "unat p \<le> 64 \<Longrightarrow>
   pdep_premask a p = take_bit (unat p) a \<and> (p = 64 \<longrightarrow> pdep_premask a p = a)"
  by (simp add: pdep_premask_take_bit pdep_premask_64)

theorem pdep_premask_correct_witness:
  "unat (64 :: u64) \<le> 64 \<and>
   pdep_premask 0x123456789ABCDEF0 64 = take_bit (unat (64 :: u64)) 0x123456789ABCDEF0 \<and>
   pdep_premask 0x123456789ABCDEF0 64 = 0x123456789ABCDEF0"
  using pdep_premask_correct [of 64 "0x123456789ABCDEF0"] by simp

text \<open>
  C9. The SWAR population count is correct: for every 64-bit \<open>x\<close>, \<open>popcnt_64 x\<close> is the
  number of set bits of \<open>x\<close>, given both as the number of set positions among 0..63 and as
  the cardinality of the set of set positions.
\<close>

theorem popcnt_64_correct:
  "popcnt_64 x = of_nat (length (filter (bit x) [0..<64])) \<and>
   unat (popcnt_64 x) = card {n. bit x n}"
proof
  have "of_nat (unat (popcnt_64 x)) = (of_nat (cnt (bit x) 64) :: u64)"
    by (simp only: unat_popcnt_64)
  then show "popcnt_64 x = of_nat (length (filter (bit x) [0..<64]))"
    by (simp add: cnt_def)
  show "unat (popcnt_64 x) = card {n. bit x n}"
    by (simp only: unat_popcnt_64 card_bits)
qed

text \<open>
  C2. For every 64-bit \<open>a\<close> and every 64-bit mask, \<open>zp7_pdep_64 a mask\<close> is the reference
  PDEP result: the low bits of \<open>a\<close>, in order, placed at the set positions of the mask
  (input bit \<open>k\<close> at the set position of rank \<open>k\<close>); and every output bit at an unset
  position of the mask is zero. (By \<open>pdep_ref_scan\<close> the reference is also the result of the
  bit-by-bit scan.)
\<close>

theorem zp7_pdep_64_correct:
  "zp7_pdep_64 a m = pdep_ref a m \<and> zp7_pdep_64 a m AND NOT m = 0"
proof
  show "zp7_pdep_64 a m = pdep_ref a m"
    by (rule bit_word_eqI) (simp add: bit_zp7_pdep_64 bit_pdep_ref)
  show "zp7_pdep_64 a m AND NOT m = 0"
    by (rule bit_word_eqI) (simp add: bit_and_iff bit_not_iff bit_zp7_pdep_64)
qed

text \<open>
  C4. For every mask and every value confined to the mask (\<open>value AND mask = value\<close>),
  scattering the gathered value gives the value back:
  \<open>zp7_pdep_64 (zp7_pext_64 value mask) mask = value\<close>.
\<close>

theorem pdep_pext_round_trip:
  assumes "v AND m = v"
  shows "zp7_pdep_64 (zp7_pext_64 v m) m = v"
proof (rule bit_word_eqI)
  fix q
  assume "q < LENGTH(64)"
  have v: "bit v q \<Longrightarrow> bit m q"
    using assms by (metis bit_and_iff)
  have "bit (zp7_pdep_64 (zp7_pext_64 v m) m) q
    \<longleftrightarrow> q < 64 \<and> bit m q \<and> (\<exists>j<64. bit m j \<and> bit v j \<and> set_below m j = set_below m q)"
    by (simp only: bit_zp7_pdep_64 bit_zp7_pext_64)
  also have "\<dots> \<longleftrightarrow> bit m q \<and> bit v q"
    using set_below_inj [of m _ q] bit_imp_le_length [of m q] by auto
  finally show "bit (zp7_pdep_64 (zp7_pext_64 v m) m) q \<longleftrightarrow> bit v q"
    using v by blast
qed

theorem pdep_pext_round_trip_witness:
  "(0x0A0B0C :: u64) AND 0x0F0F0F = 0x0A0B0C \<and>
   zp7_pdep_64 (zp7_pext_64 0x0A0B0C 0x0F0F0F) 0x0F0F0F = 0x0A0B0C"
proof -
  have h: "(0x0A0B0C :: u64) AND 0x0F0F0F = 0x0A0B0C"
    by simp
  show ?thesis
    using h pdep_pext_round_trip [OF h] by (rule conjI)
qed

text \<open>
  C5. For every mask and every value, gathering the scattered value gives the value
  truncated to its low \<open>popcount mask\<close> bits; when the mask has all 64 bits set nothing is
  truncated and the result is the value itself.
\<close>

theorem pext_pdep_round_trip:
  "zp7_pext_64 (zp7_pdep_64 v m) m = take_bit (length (filter (bit m) [0..<64])) v \<and>
   (length (filter (bit m) [0..<64]) = 64 \<longrightarrow> zp7_pext_64 (zp7_pdep_64 v m) m = v)"
proof -
  have e: "zp7_pext_64 (zp7_pdep_64 v m) m = take_bit (length (filter (bit m) [0..<64])) v"
  proof (rule bit_word_eqI)
    fix q
    have "bit (zp7_pext_64 (zp7_pdep_64 v m) m) q
      \<longleftrightarrow> (\<exists>j<64. bit m j \<and> set_below m j = q) \<and> bit v q"
      by (auto simp add: bit_zp7_pext_64 bit_zp7_pdep_64)
    also have "\<dots> \<longleftrightarrow> q < set_below m 64 \<and> bit v q"
      by (simp only: rank_exists)
    finally show "bit (zp7_pext_64 (zp7_pdep_64 v m) m) q
      \<longleftrightarrow> bit (take_bit (length (filter (bit m) [0..<64])) v) q"
      by (simp add: bit_take_bit_iff set_below_def cnt_def)
  qed
  then show ?thesis
    by (simp add: take_bit_word_eq_self)
qed

theorem pext_pdep_round_trip_witness:
  "length (filter (bit (0xFFFFFFFFFFFFFFFF :: u64)) [0..<64]) = 64 \<and>
   zp7_pext_64 (zp7_pdep_64 0x123456789ABCDEF0 0xFFFFFFFFFFFFFFFF) 0xFFFFFFFFFFFFFFFF
     = 0x123456789ABCDEF0"
proof -
  have h: "length (filter (bit (0xFFFFFFFFFFFFFFFF :: u64)) [0..<64]) = 64"
    by code_simp
  show ?thesis
    using h pext_pdep_round_trip [of "0x123456789ABCDEF0" "0xFFFFFFFFFFFFFFFF"] by blast
qed

text \<open>
  C7. The two prefix-XOR implementations agree: for every 64-bit \<open>x\<close> the low 64 bits of the
  carry-less product of \<open>x\<close> and \<open>0xFFFFFFFFFFFFFFFE\<close> (the bit pattern of -2) are
  \<open>prefix_sum x\<close> shifted left by one; hence the builds of \<^verbatim>\<open>zp7_ppp_64\<close> with and without
  \<^verbatim>\<open>HAS_CLMUL\<close> return the same structure for every mask.
\<close>

theorem clmul_build_equivalent:
  "ucast (clmul_64 x 0xFFFFFFFFFFFFFFFE) = push_bit 1 (prefix_sum x) \<and>
   zp7_ppp_64_clmul m = zp7_ppp_64 m"
proof
  have "(0xFFFFFFFFFFFFFFFE :: u64) = - 2" by simp
  then show "ucast (clmul_64 x 0xFFFFFFFFFFFFFFFE) = push_bit 1 (prefix_sum x)"
    by (simp only: clmul_neg_2_low)
  show "zp7_ppp_64_clmul m = zp7_ppp_64 m"
    by (simp add: zp7_ppp_64_clmul_def zp7_ppp_64_def mm_cvtsi64_si128_def fold_ppp_step_clmul)
qed

text \<open>
  C8. The addition in the loop of PDEP never carries: for every input \<open>a\<close> and mask, and
  every iteration \<open>i\<close> of \<^verbatim>\<open>zp7_pdep_pre_64\<close> run on \<open>zp7_ppp_64 mask\<close>, the value \<open>a'\<close> that
  enters the iteration has its stationary part \<open>a' AND NOT bit\<close> and its moving part
  \<open>(a' AND bit) << (1 << i)\<close> without a common set bit, so their sum is their bitwise OR.
  The last conjunct says that \<open>pdep_entering\<close> is indeed the value of the run at that point:
  the run is the iterations \<open>i, \<dots>, 0\<close> applied to it.
\<close>

theorem pdep_add_never_carries:
  assumes "i < 6"
  shows "(let a' = pdep_entering (zp7_ppp_64 m) i a;
              bit = pdep_bit (zp7_ppp_64 m) i;
              shift = 2 ^ i
          in (a' AND NOT bit) AND push_bit shift (a' AND bit) = 0
           \<and> (a' AND NOT bit) + push_bit shift (a' AND bit)
             = (a' AND NOT bit) OR push_bit shift (a' AND bit))
       \<and> zp7_pdep_64 a m
         = fold (pdep_step (zp7_ppp_64 m)) (rev [0..<Suc i]) (pdep_entering (zp7_ppp_64 m) i a)"
proof -
  let ?X = "pdep_entering (zp7_ppp_64 m) i a"
  have "(?X AND NOT (pdep_bit (zp7_ppp_64 m) i))
         AND push_bit (2 ^ i) (?X AND pdep_bit (zp7_ppp_64 m) i) = 0"
    using assms _ bit_pdep_entering [OF assms] by (rule pdep_step_disjoint) simp
  moreover from this have "(?X AND NOT (pdep_bit (zp7_ppp_64 m) i))
         + push_bit (2 ^ i) (?X AND pdep_bit (zp7_ppp_64 m) i)
      = (?X AND NOT (pdep_bit (zp7_ppp_64 m) i))
         OR push_bit (2 ^ i) (?X AND pdep_bit (zp7_ppp_64 m) i)"
    by (rule disjunctive_add_eq_or)
  moreover have "zp7_pdep_64 a m
      = fold (pdep_step (zp7_ppp_64 m)) (rev [0..<Suc i]) ?X"
    unfolding zp7_pdep_64_def using assms by (rule pdep_run_split)
  ultimately show ?thesis
    by (simp only: Let_def)
qed

theorem pdep_add_never_carries_witness:
  "(2 :: nat) < 6 \<and>
   ((let a' = pdep_entering (zp7_ppp_64 0x0F0F0F0F0F0F0F0F) 2 0xFFFFFFFF;
         bit = pdep_bit (zp7_ppp_64 0x0F0F0F0F0F0F0F0F) 2;
         shift = 2 ^ 2
     in (a' AND NOT bit) AND push_bit shift (a' AND bit) = 0
      \<and> (a' AND NOT bit) + push_bit shift (a' AND bit)
        = (a' AND NOT bit) OR push_bit shift (a' AND bit))
    \<and> zp7_pdep_64 0xFFFFFFFF 0x0F0F0F0F0F0F0F0F
      = fold (pdep_step (zp7_ppp_64 0x0F0F0F0F0F0F0F0F)) (rev [0..<Suc 2])
          (pdep_entering (zp7_ppp_64 0x0F0F0F0F0F0F0F0F) 2 0xFFFFFFFF))"
proof -
  have h: "(2 :: nat) < 6"
    by simp
  show ?thesis
    using h pdep_add_never_carries [OF h] by (rule conjI)
qed

end
